theory Spec2Isabelle
  imports Complex_Main "HOL-Library.Multiset" "HOL-Library.AList"
begin

section \<open>The data model of \<open>src/lib/orchestrator.ts\<close>\<close>

text \<open>
  Keys are property names. A function object is known by its identity, because the cost
  table is a \<open>Map\<close> keyed by the function object: \<open>Given n\<close> is the \<open>n\<close>-th function the
  caller wrote into the specification, \<open>Wrapped k n\<close> the closure \<open>normalizeSpec\<close> creates
  around \<open>Given n\<close> for the entry of key \<open>k\<close>, and \<open>Identity i\<close> the \<open>i\<close>-th closure
  \<open>results => results\<close> that the accessor \<open>get\<close> creates.
\<close>

type_synonym key = string

datatype fn = Given nat | Wrapped key nat | Identity nat

text \<open>JavaScript values, as far as the orchestrator builds or inspects them.\<close>

datatype val = Undefined | Num int | Text string | Arr "val list" | Obj "(key \<times> val) list"

text \<open>
  A raw specification entry (\<open>DataSourceSpec\<close>) is untyped at run time: a function, a string
  or an array of such things.
\<close>

datatype raw = RFunction nat | RString string | RArray "raw list"

text \<open>
  What is thrown or what a promise is rejected with: the string
  \<open>`${key} is not defined in the data source`\<close>, a \<open>TypeError\<close> of the runtime (a property
  read on \<open>undefined\<close>, a call of something that is no function, \<open>reduce\<close> of an empty
  array), the \<open>Error\<close> of \<open>normalizeDependentFn\<close> (which carries the offending entry), or
  whatever a producer failed with.
\<close>

datatype err = NotDefined key | TypeError | InvalidDependentFn raw | Failure val

text \<open>What a producer does when it is called: it hands back a value at once, it throws
  (or calls its callback with an error) at once, or it settles later.\<close>

datatype response = Return val | Throw val | Later

text \<open>
  The functions of the caller are outside the program. \<open>len\<close> is \<open>fn.length\<close>, \<open>source\<close> the
  text \<open>String(fn)\<close> gives, and \<open>run deps i\<close> the response to the call with the dependency
  object \<open>deps\<close> when \<open>i\<close> producer calls have been made before in the process.
\<close>

record user_fn =
  len :: nat
  source :: string
  run :: "(key \<times> val) list \<Rightarrow> nat \<Rightarrow> response"

type_synonym env = "nat \<Rightarrow> user_fn"

record path =
  dependencies :: "key list"
  fn :: fn

type_synonym nspec = "key \<rightharpoonup> path list"

record stats =
  avg :: rat
  count :: nat

type_synonym stats_map = "fn \<rightharpoonup> stats"

record costed =
  cost :: rat
  path :: path

section \<open>The spec normalizer\<close>

text \<open>The property key a value in a dependency position is used as (\<open>dep in cache\<close>,
  \<open>this.spec[dep]\<close>, \<open>{ [dep]: v }\<close>): a string is itself, an array is its elements joined by
  commas, a function is its source text.\<close>

fun join :: "string list \<Rightarrow> string" where
  "join [] = []"
| "join [x] = x"
| "join (x # y # ys) = x @ '','' @ join (y # ys)"

fun to_key :: "env \<Rightarrow> raw \<Rightarrow> key" where
  "to_key env (RString s) = s"
| "to_key env (RFunction n) = source (env n)"
| "to_key env (RArray xs) = join (map (to_key env) xs)"

text \<open>\<open>normalizeDependentFn\<close>: all elements but the last are the dependencies, the last must
  be a function. A string has \<open>slice\<close> and an index too, and its last character is no
  function; a function has no \<open>slice\<close>.\<close>

fun normalizeDependentFn :: "env \<Rightarrow> raw \<Rightarrow> err + path" where
  "normalizeDependentFn env (RArray xs) =
     (case rev xs of
        RFunction n # ds \<Rightarrow> Inr \<lparr>dependencies = map (to_key env) (rev ds), fn = Given n\<rparr>
      | _ \<Rightarrow> Inl (InvalidDependentFn (RArray xs)))"
| "normalizeDependentFn env (RString s) = Inl (InvalidDependentFn (RString s))"
| "normalizeDependentFn env (RFunction n) = Inl TypeError"

text \<open>\<open>spec.map((s) => this.normalizeDependentFn(s))\<close>: the first element that throws ends
  the loop.\<close>

fun normalizeAll :: "env \<Rightarrow> raw list \<Rightarrow> err + path list" where
  "normalizeAll env [] = Inr []"
| "normalizeAll env (x # xs) =
     (case normalizeDependentFn env x of
        Inl e \<Rightarrow> Inl e
      | Inr p \<Rightarrow> (case normalizeAll env xs of Inl e \<Rightarrow> Inl e | Inr ps \<Rightarrow> Inr (p # ps)))"

text \<open>\<open>normalizeSpec\<close>, for the entry of key \<open>k\<close>. Both closures around a plain function call
  it without the dependency object; they differ in their \<open>length\<close> only (see \<open>fn_length\<close>).\<close>

fun normalizeSpec :: "env \<Rightarrow> key \<Rightarrow> raw \<Rightarrow> err + path list" where
  "normalizeSpec env k (RFunction n) = Inr [\<lparr>dependencies = [], fn = Wrapped k n\<rparr>]"
| "normalizeSpec env k (RArray (RArray y # xs)) = normalizeAll env (RArray y # xs)"
| "normalizeSpec env k spec =
     (case normalizeDependentFn env spec of Inl e \<Rightarrow> Inl e | Inr p \<Rightarrow> Inr [p])"

text \<open>The constructor: \<open>mapObject(spec, key => this.normalizeSpec(spec[key]))\<close> over the keys
  of the raw specification in their order. A later entry of a repeated key replaces the
  earlier one, as in an object.\<close>

fun normalize :: "env \<Rightarrow> (key \<times> raw) list \<Rightarrow> err + nspec" where
  "normalize env [] = Inr Map.empty"
| "normalize env ((k, r) # rest) =
     (case normalizeSpec env k r of
        Inl e \<Rightarrow> Inl e
      | Inr ps \<Rightarrow> (case normalize env rest of
                    Inl e \<Rightarrow> Inl e
                  | Inr m \<Rightarrow> Inr (if k \<in> fst ` set rest then m else m(k \<mapsto> ps))))"

text \<open>\<open>fn.length\<close> of a normalized producer.\<close>

fun fn_length :: "env \<Rightarrow> fn \<Rightarrow> nat" where
  "fn_length env (Given n) = len (env n)"
| "fn_length env (Wrapped k n) = (if len (env n) \<noteq> 0 then 2 else 1)"
| "fn_length env (Identity i) = 1"

section \<open>Cost statistics and cost estimation\<close>

definition MAX_SAFE_INTEGER :: rat where
  "MAX_SAFE_INTEGER = 2 ^ 53 - 1"

definition EPSILON :: rat where
  "EPSILON = 1 / 2 ^ 52"

text \<open>\<open>recordCost\<close>. Numbers are exact rationals here; the rounding of IEEE doubles is not
  part of the model.\<close>

definition recordCost :: "fn \<Rightarrow> rat \<Rightarrow> stats_map \<Rightarrow> stats_map" where
  "recordCost f amount st =
     (let priorStats = (case st f of None \<Rightarrow> \<lparr>avg = 0, count = 0\<rparr> | Some x \<Rightarrow> x);
          newCount = count priorStats + 1
      in st(f \<mapsto> \<lparr>avg = (avg priorStats * of_nat (count priorStats) + amount) / of_nat newCount,
                   count = newCount\<rparr>))"

text \<open>\<open>(stats && stats.avg) || Number.EPSILON\<close>: a missing entry and an average of zero are
  both falsy.\<close>

definition selfCost :: "stats_map \<Rightarrow> fn \<Rightarrow> rat" where
  "selfCost st f = (case st f of None \<Rightarrow> EPSILON | Some x \<Rightarrow> if avg x = 0 then EPSILON else avg x)"

text \<open>The reducer \<open>(champ, challenger) => challenger.cost < champ.cost ? challenger : champ\<close>.\<close>

definition champion :: "costed \<Rightarrow> costed \<Rightarrow> costed" where
  "champion champ challenger = (if cost challenger < cost champ then challenger else champ)"

text \<open>
  \<open>getCostedPaths\<close> and \<open>getCost\<close> call each other without any check for cycles. The
  recursion is written over a bound on the depth of the calls (\<open>None\<close> is the stack running
  out): \<open>getCostWith\<close> is the body of \<open>getCost\<close> given the \<open>getCostedPaths\<close> it calls,
  \<open>costPaths\<close> is the \<open>map\<close> over the paths and \<open>sumDeps\<close> the \<open>reduce\<close> over the
  dependencies, each ending with the exception of the first element that throws.
\<close>

fun sumDeps :: "(key \<Rightarrow> (err + costed list) option) \<Rightarrow> (key \<rightharpoonup> nat) \<Rightarrow> key list \<Rightarrow> rat
    \<Rightarrow> (err + rat) option" where
  "sumDeps gcp cache [] acc = Some (Inr acc)"
| "sumDeps gcp cache (d # ds) acc =
     (if cache d \<noteq> None then sumDeps gcp cache ds (acc + 0)
      else (case gcp d of
              None \<Rightarrow> None
            | Some (Inl e) \<Rightarrow> Some (Inl e)
            | Some (Inr []) \<Rightarrow> Some (Inl TypeError)
            | Some (Inr (c # cs)) \<Rightarrow> sumDeps gcp cache ds (acc + cost (foldl champion c cs))))"

definition getCostWith :: "(key \<Rightarrow> (err + costed list) option) \<Rightarrow> stats_map \<Rightarrow> (key \<rightharpoonup> nat)
    \<Rightarrow> path \<Rightarrow> (err + rat) option" where
  "getCostWith gcp st cache p =
     (case sumDeps gcp cache (dependencies p) 0 of
        None \<Rightarrow> None
      | Some (Inl e) \<Rightarrow> Some (Inl e)
      | Some (Inr others) \<Rightarrow> Some (Inr (selfCost st (fn p) + others)))"

fun costPaths :: "(path \<Rightarrow> (err + rat) option) \<Rightarrow> path list \<Rightarrow> (err + costed list) option" where
  "costPaths gc [] = Some (Inr [])"
| "costPaths gc (p # ps) =
     (case gc p of
        None \<Rightarrow> None
      | Some (Inl e) \<Rightarrow> Some (Inl e)
      | Some (Inr c) \<Rightarrow>
          (case costPaths gc ps of
             None \<Rightarrow> None
           | Some (Inl e) \<Rightarrow> Some (Inl e)
           | Some (Inr cs) \<Rightarrow> Some (Inr (\<lparr>cost = c, path = p\<rparr> # cs))))"

primrec getCostedPaths :: "nat \<Rightarrow> nspec \<Rightarrow> stats_map \<Rightarrow> (key \<rightharpoonup> nat) \<Rightarrow> key
    \<Rightarrow> (err + costed list) option" where
  "getCostedPaths 0 sp st cache k = None"
| "getCostedPaths (Suc n) sp st cache k =
     (case sp k of
        None \<Rightarrow> Some (Inl TypeError)
      | Some ps \<Rightarrow> costPaths (getCostWith (getCostedPaths n sp st cache) st cache) ps)"

definition getCost :: "nat \<Rightarrow> nspec \<Rightarrow> stats_map \<Rightarrow> (key \<rightharpoonup> nat) \<Rightarrow> path \<Rightarrow> (err + rat) option" where
  "getCost n sp st cache p = getCostWith (getCostedPaths n sp st cache) st cache p"

text \<open>\<open>getPrioritizedPaths\<close>: \<open>Array.prototype.sort\<close> with the comparator
  \<open>costA - costB\<close> is a stable sort by cost (ECMAScript 2019).\<close>

definition getPrioritizedPaths ::
  "nat \<Rightarrow> nspec \<Rightarrow> stats_map \<Rightarrow> (key \<rightharpoonup> nat) \<Rightarrow> key \<Rightarrow> (err + costed list) option" where
  "getPrioritizedPaths n sp st cache k =
     (case getCostedPaths n sp st cache k of
        None \<Rightarrow> None
      | Some (Inl e) \<Rightarrow> Some (Inl e)
      | Some (Inr cps) \<Rightarrow> Some (Inr (sort_key cost cps)))"

section \<open>Promises\<close>

text \<open>
  The orchestrator is written with bluebird promises. A promise is a cell of a heap: how it was
  made, and whether it is pending or settled. A promise made by \<open>then\<close> or \<open>catch\<close> is settled
  by running its handler once the promise it was made from is settled; this happens later, on
  its own. The handlers are the closures the orchestrator passes to \<open>then\<close> and \<open>catch\<close>,
  one constructor for each, with the variables the closure captures.
\<close>

type_synonym pid = nat
type_synonym cid = nat

datatype outcome = Pending | Fulfilled val | Rejected err

datatype handler =
    Evict cid key
  | NextPath cid key path
  | DepsReady nat "key list" fn
  | EmitTiming "key option" "key list" int nat
  | RecordOk fn int
  | RecordErr fn

text \<open>\<open>Made\<close> is \<open>Promise.resolve(v)\<close> or \<open>Promise.reject(e)\<close>, \<open>Producer\<close> the promise of a
  producer call (\<open>Promise.try\<close>, \<open>Promise.fromCallback\<close>), \<open>ThenOf p ok er\<close> is
  \<open>p.then(ok, er)\<close> (a missing handler passes the outcome on; \<open>p.catch(h)\<close> has no \<open>ok\<close>),
  and \<open>AllOf ps\<close> is \<open>Promise.all(ps)\<close>.\<close>

datatype origin =
    Made
  | Producer
  | ThenOf pid "handler option" "handler option"
  | AllOf "pid list"

text \<open>\<open>follows\<close> is set when the handler of the promise returned a promise: the promise then
  takes the outcome of that one.\<close>

record promise =
  origin :: origin
  outcome :: outcome
  follows :: "pid option"

text \<open>The \<open>timing\<close> event; \<open>deps\<close> is its field \<open>dependencies\<close>.\<close>

record timing =
  name :: "key option"
  deps :: "key list"
  requestStart :: int
  waitDuration :: int
  fetchStart :: int
  fetchDuration :: int
  totalDuration :: int

text \<open>
  The state of one \<open>Orchestrator\<close> and of the scopes made from it: its normalized
  specification and its cost table, the events it emitted, the cache object of every scope,
  the promises, the \<open>fetchStart\<close> variable of every activation of \<open>fetchDependentResult\<close> and
  the clock \<open>Date.now()\<close>. \<open>calls\<close> and \<open>attempts\<close> are history only: the producer calls made
  (function and dependency object) and the path attempts begun (cache, name and producer), in
  order. \<open>closures\<close> counts the functions \<open>get\<close> created.
\<close>

record state =
  spec :: nspec
  stats :: stats_map
  emitted :: "timing list"
  caches :: "(key \<rightharpoonup> pid) list"
  promises :: "promise list"
  cells :: "int list"
  now :: int
  calls :: "(fn \<times> (key \<times> val) list) list"
  attempts :: "(cid \<times> key option \<times> fn) list"
  closures :: nat

definition cache_of :: "state \<Rightarrow> cid \<Rightarrow> (key \<rightharpoonup> pid)" where
  "cache_of s c = (if c < length (caches s) then caches s ! c else Map.empty)"

definition outcome_of :: "state \<Rightarrow> pid \<Rightarrow> outcome" where
  "outcome_of s p = (if p < length (promises s) then outcome (promises s ! p) else Pending)"

definition alloc :: "origin \<Rightarrow> outcome \<Rightarrow> state \<Rightarrow> pid \<times> state" where
  "alloc org out s =
     (length (promises s),
      s\<lparr>promises := promises s @ [\<lparr>origin = org, outcome = out, follows = None\<rparr>]\<rparr>)"

definition settle :: "pid \<Rightarrow> outcome \<Rightarrow> state \<Rightarrow> state" where
  "settle p out s = s\<lparr>promises := (promises s)[p := (promises s ! p)\<lparr>outcome := out\<rparr>]\<rparr>"

definition follow :: "pid \<Rightarrow> pid \<Rightarrow> state \<Rightarrow> state" where
  "follow q r s = s\<lparr>promises := (promises s)[q := (promises s ! q)\<lparr>follows := Some r\<rparr>]\<rparr>"

text \<open>\<open>p.then(ok, er)\<close>; \<open>p.catch(h)\<close> is \<open>then_p p None (Some h)\<close>.\<close>

definition then_p :: "pid \<Rightarrow> handler option \<Rightarrow> handler option \<Rightarrow> state \<Rightarrow> pid \<times> state" where
  "then_p p ok er s = alloc (ThenOf p ok er) Pending s"

definition Promise_all :: "pid list \<Rightarrow> state \<Rightarrow> pid \<times> state" where
  "Promise_all ps s = alloc (AllOf ps) (if ps = [] then Fulfilled (Arr []) else Pending) s"

text \<open>\<open>Promise.try(() => fn(deps))\<close> and \<open>Promise.fromCallback(cb => fn(deps, cb))\<close> both call
  the function at once; the promise is settled already when the function responded at once,
  and is settled from outside otherwise.\<close>

fun responded :: "response \<Rightarrow> outcome" where
  "responded (Return v) = Fulfilled v"
| "responded (Throw e) = Rejected (Failure e)"
| "responded Later = Pending"

definition Promise_try :: "response \<Rightarrow> state \<Rightarrow> pid \<times> state" where
  "Promise_try r s = alloc Producer (responded r) s"

definition Promise_fromCallback :: "response \<Rightarrow> state \<Rightarrow> pid \<times> state" where
  "Promise_fromCallback r s = alloc Producer (responded r) s"

section \<open>The resolution engine\<close>

text \<open>The call \<open>fn(deps)\<close> (or \<open>fn(deps, cb)\<close>). The closures of \<open>normalizeSpec\<close> drop the
  dependency object; the function of \<open>get\<close> returns it.\<close>

fun respond :: "env \<Rightarrow> fn \<Rightarrow> (key \<times> val) list \<Rightarrow> nat \<Rightarrow> response" where
  "respond env (Given n) ds i = run (env n) ds i"
| "respond env (Wrapped k n) ds i = run (env n) [] i"
| "respond env (Identity j) ds i = Return (Obj ds)"

definition execute :: "env \<Rightarrow> fn \<Rightarrow> (key \<times> val) list \<Rightarrow> state \<Rightarrow> pid \<times> state" where
  "execute env f ds s =
     (let startTime = now s;
          r = respond env f ds (length (calls s));
          s1 = s\<lparr>calls := calls s @ [(f, ds)]\<rparr>
      in case (if 1 < fn_length env f then Promise_fromCallback r s1 else Promise_try r s1) of
           (p, s2) \<Rightarrow> then_p p (Some (RecordOk f startTime)) (Some (RecordErr f)) s2)"

text \<open>
  \<open>resolve\<close>, \<open>fetchResult\<close>, \<open>resolvePath\<close> and \<open>fetchDependentResult\<close> call each other. As
  for the costs, the recursion is over a bound on the depth of the calls, and the bodies take
  the \<open>resolve\<close> they call as \<open>res\<close>. A result is \<open>None\<close> when the stack runs out, otherwise
  the exception thrown or the promise returned, with the state reached.
\<close>

type_synonym 'a result = "((err + 'a) \<times> state) option"

text \<open>\<open>dependencies.map(dep => this.resolve(dep, cache))\<close>.\<close>

fun resolveAll :: "(key \<Rightarrow> state \<Rightarrow> pid result) \<Rightarrow> key list \<Rightarrow> state \<Rightarrow> (pid list) result" where
  "resolveAll res [] s = Some (Inr [], s)"
| "resolveAll res (d # ds) s =
     (case res d s of
        None \<Rightarrow> None
      | Some (Inl e, s1) \<Rightarrow> Some (Inl e, s1)
      | Some (Inr p, s1) \<Rightarrow>
          (case resolveAll res ds s1 of
             None \<Rightarrow> None
           | Some (Inl e, s2) \<Rightarrow> Some (Inl e, s2)
           | Some (Inr ps, s2) \<Rightarrow> Some (Inr (p # ps), s2)))"

definition fetchDependentResultWith ::
  "(key \<Rightarrow> state \<Rightarrow> pid result) \<Rightarrow> env \<Rightarrow> cid \<Rightarrow> key option \<Rightarrow> key list \<Rightarrow> fn \<Rightarrow> state \<Rightarrow> pid result" where
  "fetchDependentResultWith res env c nm ds f s =
     (let rs = now s;
          cell = length (cells s);
          s0 = s\<lparr>cells := cells s @ [rs], attempts := attempts s @ [(c, nm, f)]\<rparr>
      in if ds \<noteq> [] then
           (case resolveAll res ds s0 of
              None \<Rightarrow> None
            | Some (Inl e, s1) \<Rightarrow> Some (Inl e, s1)
            | Some (Inr ps, s1) \<Rightarrow>
                (case Promise_all ps s1 of (a, s2) \<Rightarrow>
                 case then_p a (Some (DepsReady cell ds f)) None s2 of (task, s3) \<Rightarrow>
                 case then_p task (Some (EmitTiming nm ds rs cell)) None s3 of (r, s4) \<Rightarrow>
                   Some (Inr r, s4)))
         else
           (case execute env f [] s0 of (task, s1) \<Rightarrow>
            case then_p task (Some (EmitTiming nm ds rs cell)) None s1 of (r, s2) \<Rightarrow>
              Some (Inr r, s2)))"

definition resolvePathWith ::
  "(key \<Rightarrow> state \<Rightarrow> pid result) \<Rightarrow> env \<Rightarrow> cid \<Rightarrow> key \<Rightarrow> path \<Rightarrow> state \<Rightarrow> pid result" where
  "resolvePathWith res env c k p s =
     fetchDependentResultWith res env c (Some k) (dependencies p) (fn p) s"

text \<open>The \<open>reduce\<close> of \<open>fetchResult\<close>: each further path is a \<open>catch\<close> on the chain so far.\<close>

fun chainPaths :: "cid \<Rightarrow> key \<Rightarrow> costed list \<Rightarrow> pid \<times> state \<Rightarrow> pid \<times> state" where
  "chainPaths c k [] acc = acc"
| "chainPaths c k (cp # cps) (chain, s) =
     chainPaths c k cps (then_p chain None (Some (NextPath c k (path cp))) s)"

definition fetchResultWith ::
  "(key \<Rightarrow> state \<Rightarrow> pid result) \<Rightarrow> nat \<Rightarrow> env \<Rightarrow> cid \<Rightarrow> key \<Rightarrow> state \<Rightarrow> pid result" where
  "fetchResultWith res n env c k s =
     (case getPrioritizedPaths n (spec s) (stats s) (cache_of s c) k of
        None \<Rightarrow> None
      | Some (Inl e) \<Rightarrow> Some (Inl e, s)
      | Some (Inr []) \<Rightarrow> Some (Inl TypeError, s)
      | Some (Inr (cp # cps)) \<Rightarrow>
          (case resolvePathWith res env c k (path cp) s of
             None \<Rightarrow> None
           | Some (Inl e, s1) \<Rightarrow> Some (Inl e, s1)
           | Some (Inr first, s1) \<Rightarrow>
               (case chainPaths c k cps (first, s1) of (chain, s2) \<Rightarrow> Some (Inr chain, s2))))"

text \<open>\<open>resolve(key, cache)\<close>. \<open>asCallback(cb)\<close> returns the promise it is called on; the
  callback of the caller is not part of the model.\<close>

primrec resolve :: "nat \<Rightarrow> env \<Rightarrow> cid \<Rightarrow> key \<Rightarrow> state \<Rightarrow> pid result" where
  "resolve 0 env c k s = None"
| "resolve (Suc n) env c k s =
     (case cache_of s c k of
        Some p \<Rightarrow> Some (Inr p, s)
      | None \<Rightarrow>
          if spec s k = None then
            (case alloc Made (Rejected (NotDefined k)) s of (p, s1) \<Rightarrow> Some (Inr p, s1))
          else
            (case fetchResultWith (resolve n env c) n env c k s of
               None \<Rightarrow> None
             | Some (Inl e, s1) \<Rightarrow> Some (Inl e, s1)
             | Some (Inr p, s1) \<Rightarrow>
                 (case then_p p None (Some (Evict c k)) s1 of (q, s2) \<Rightarrow>
                    Some (Inr q, s2\<lparr>caches := (caches s2)[c := (cache_of s2 c)(k \<mapsto> q)]\<rparr>))))"

definition fetchResult :: "nat \<Rightarrow> env \<Rightarrow> cid \<Rightarrow> key \<Rightarrow> state \<Rightarrow> pid result" where
  "fetchResult n env c k s = fetchResultWith (resolve n env c) n env c k s"

definition resolvePath :: "nat \<Rightarrow> env \<Rightarrow> cid \<Rightarrow> key \<Rightarrow> path \<Rightarrow> state \<Rightarrow> pid result" where
  "resolvePath n env c k p s = resolvePathWith (resolve n env c) env c k p s"

definition fetchDependentResult ::
  "nat \<Rightarrow> env \<Rightarrow> cid \<Rightarrow> key option \<Rightarrow> key list \<Rightarrow> fn \<Rightarrow> state \<Rightarrow> pid result" where
  "fetchDependentResult n env c nm ds f s = fetchDependentResultWith (resolve n env c) env c nm ds f s"

section \<open>Handlers and the event loop\<close>

text \<open>What a handler does: it returns a value, it throws, or it returns a promise.\<close>

datatype hres = Value val | Raise err | Chain pid

text \<open>The argument a handler is called with, read as the value of a fulfilment or as the
  reason of a rejection.\<close>

fun as_val :: "outcome \<Rightarrow> val" where
  "as_val (Fulfilled v) = v"
| "as_val out = Undefined"

fun as_err :: "outcome \<Rightarrow> err" where
  "as_err (Rejected e) = e"
| "as_err out = Failure (as_val out)"

fun elements :: "val \<Rightarrow> val list" where
  "elements (Arr vs) = vs"
| "elements v = []"

text \<open>\<open>dependencies.reduce((result, dep, i) => Object.assign(result, { [dep]: values[i] }), {})\<close>;
  \<open>Promise.all\<close> gives as many values as there are dependencies.\<close>

definition depsObj :: "key list \<Rightarrow> val list \<Rightarrow> (key \<times> val) list" where
  "depsObj ds vs = foldl (\<lambda>result (dep, v). AList.update dep v result) [] (zip ds vs)"

text \<open>
  The closures, in the order of the source: the \<open>catch\<close> of \<open>resolve\<close>, the \<open>catch\<close> of
  \<open>fetchResult\<close>, the two \<open>then\<close> of \<open>fetchDependentResult\<close> and the two handlers of
  \<open>execute\<close>. The listeners of the \<open>timing\<close> event are outside the program.
\<close>

fun handle :: "nat \<Rightarrow> env \<Rightarrow> handler \<Rightarrow> outcome \<Rightarrow> state \<Rightarrow> (hres \<times> state) option" where
  "handle n env (Evict c k) out s =
     Some (Raise (as_err out), s\<lparr>caches := (caches s)[c := (cache_of s c)(k := None)]\<rparr>)"
| "handle n env (NextPath c k p) out s =
     (case resolvePath n env c k p s of
        None \<Rightarrow> None
      | Some (Inl e, s1) \<Rightarrow> Some (Raise e, s1)
      | Some (Inr r, s1) \<Rightarrow> Some (Chain r, s1))"
| "handle n env (DepsReady cell ds f) out s =
     (case execute env f (depsObj ds (elements (as_val out))) (s\<lparr>cells := (cells s)[cell := now s]\<rparr>) of
        (task, s1) \<Rightarrow> Some (Chain task, s1))"
| "handle n env (EmitTiming nm ds rs cell) out s =
     (let fs = (if cell < length (cells s) then cells s ! cell else rs)
      in Some (Value (as_val out),
               s\<lparr>emitted := emitted s @
                   [\<lparr>name = nm, deps = ds, requestStart = rs, waitDuration = fs - rs, fetchStart = fs,
                     fetchDuration = now s - fs, totalDuration = now s - rs\<rparr>]\<rparr>))"
| "handle n env (RecordOk f startTime) out s =
     Some (Value (as_val out), s\<lparr>stats := recordCost f (of_int (now s - startTime)) (stats s)\<rparr>)"
| "handle n env (RecordErr f) out s =
     Some (Raise (as_err out), s\<lparr>stats := recordCost f MAX_SAFE_INTEGER (stats s)\<rparr>)"

text \<open>\<open>Promise.all\<close>: rejected as soon as an element is rejected, fulfilled with the values in
  the order of the elements when all are fulfilled.\<close>

fun allOutcome :: "outcome list \<Rightarrow> outcome" where
  "allOutcome outs =
     (case filter (\<lambda>out. case out of Rejected e \<Rightarrow> True | _ \<Rightarrow> False) outs of
        r # rs \<Rightarrow> r
      | [] \<Rightarrow> if Pending \<in> set outs then Pending else Fulfilled (Arr (map as_val outs)))"

text \<open>
  Settling the pending promise \<open>q\<close>, when what it waits for is settled: the promise it
  follows, the promise it was made from (then its handler runs, or the outcome passes on), or
  the elements of \<open>Promise.all\<close>. \<open>None\<close> when \<open>q\<close> cannot be settled now.
\<close>

definition fire :: "nat \<Rightarrow> env \<Rightarrow> pid \<Rightarrow> state \<Rightarrow> state option" where
  "fire n env q s =
     (if q < length (promises s) \<and> outcome (promises s ! q) = Pending then
        (case follows (promises s ! q) of
           Some r \<Rightarrow> if outcome_of s r = Pending then None else Some (settle q (outcome_of s r) s)
         | None \<Rightarrow>
            (case origin (promises s ! q) of
               ThenOf p ok er \<Rightarrow>
                 (let out = outcome_of s p in
                  if out = Pending then None
                  else (case (case out of Fulfilled v \<Rightarrow> ok | _ \<Rightarrow> er) of
                          None \<Rightarrow> Some (settle q out s)
                        | Some h \<Rightarrow>
                            (case handle n env h out s of
                               None \<Rightarrow> None
                             | Some (Value v, s1) \<Rightarrow> Some (settle q (Fulfilled v) s1)
                             | Some (Raise e, s1) \<Rightarrow> Some (settle q (Rejected e) s1)
                             | Some (Chain r, s1) \<Rightarrow> Some (follow q r s1))))
             | AllOf ps \<Rightarrow>
                 (let out = allOutcome (map (outcome_of s) ps) in
                  if out = Pending then None else Some (settle q out s))
             | _ \<Rightarrow> None))
      else None)"

text \<open>
  \<open>Orchestration\<close>: the cache of a new scope holds a fulfilled promise for every seed value
  (\<open>mapObject(initialData, key => Promise.resolve(initialData[key]))\<close>).
\<close>

fun seed :: "(key \<times> val) list \<Rightarrow> (key \<rightharpoonup> pid) \<times> state \<Rightarrow> (key \<rightharpoonup> pid) \<times> state" where
  "seed [] acc = acc"
| "seed ((k, v) # kvs) (cache, s) =
     (case alloc Made (Fulfilled v) s of (p, s1) \<Rightarrow> seed kvs (cache(k \<mapsto> p), s1))"

definition Orchestration :: "(key \<times> val) list \<Rightarrow> state \<Rightarrow> cid \<times> state" where
  "Orchestration initialData s =
     (case seed initialData (Map.empty, s) of
        (cache, s1) \<Rightarrow> (length (caches s1), s1\<lparr>caches := caches s1 @ [cache]\<rparr>))"

text \<open>The accessor \<open>get\<close> of a scope: the keys are the dependencies of a new function
  \<open>results => results\<close>.\<close>

definition get :: "nat \<Rightarrow> env \<Rightarrow> cid \<Rightarrow> key list \<Rightarrow> state \<Rightarrow> pid result" where
  "get n env c ks s =
     fetchDependentResult n env c None ks (Identity (closures s)) (s\<lparr>closures := Suc (closures s)\<rparr>)"

text \<open>The constructor of \<open>Orchestrator\<close>, at the time \<open>t\<close>.\<close>

definition Orchestrator :: "env \<Rightarrow> (key \<times> raw) list \<Rightarrow> int \<Rightarrow> err + state" where
  "Orchestrator env rawspec t =
     (case normalize env rawspec of
        Inl e \<Rightarrow> Inl e
      | Inr sp \<Rightarrow> Inr \<lparr>spec = sp, stats = Map.empty, emitted = [], caches = [], promises = [],
                      cells = [], now = t, calls = [], attempts = [], closures = 0\<rparr>)"

text \<open>
  What can happen next: a scope is created, an accessor of a scope is called, a promise that
  can be settled is settled, a producer that answered \<open>Later\<close> settles its promise, or time
  passes. Any promise that can be settled may be the next one, so every order in which the
  promise library runs the handlers is covered.
\<close>

datatype event =
    NewScope "(key \<times> val) list"
  | Call cid key
  | Get cid "key list"
  | Fire pid
  | Settle pid outcome
  | Tick nat

fun step :: "nat \<Rightarrow> env \<Rightarrow> event \<Rightarrow> state \<Rightarrow> state option" where
  "step n env (NewScope initialData) s = Some (snd (Orchestration initialData s))"
| "step n env (Call c k) s =
     (if c < length (caches s) then map_option snd (resolve n env c k s) else None)"
| "step n env (Get c ks) s =
     (if c < length (caches s) then map_option snd (get n env c ks s) else None)"
| "step n env (Fire q) s = fire n env q s"
| "step n env (Settle p out) s =
     (if p < length (promises s) \<and> origin (promises s ! p) = Producer
         \<and> outcome (promises s ! p) = Pending \<and> out \<noteq> Pending
      then Some (settle p out s) else None)"
| "step n env (Tick d) s = Some (s\<lparr>now := now s + int d\<rparr>)"

fun exec :: "nat \<Rightarrow> env \<Rightarrow> event list \<Rightarrow> state \<Rightarrow> state option" where
  "exec n env [] s = Some s"
| "exec n env (ev # evs) s = (case step n env ev s of None \<Rightarrow> None | Some s1 \<Rightarrow> exec n env evs s1)"

section \<open>Derived notions and the inputs of the examples\<close>

text \<open>Recording the amounts \<open>ds\<close> for one producer, one after the other.\<close>

definition recordAll :: "fn \<Rightarrow> rat list \<Rightarrow> stats_map \<Rightarrow> stats_map" where
  "recordAll f ds st = foldl (\<lambda>st d. recordCost f d st) st ds"

text \<open>The functions \<open>() => 1\<close> and \<open>({a}) => a + 1\<close> of the example of the specification,
  the specification as the example writes it, and the same with \<open>b\<close> written as one
  dependency path \<open>['a', fn]\<close>.\<close>

definition example_env :: env where
  "example_env n =
     (if n = 0 then \<lparr>len = 0, source = ''() => 1'', run = (\<lambda>ds i. Return (Num 1))\<rparr>
      else \<lparr>len = 1, source = ''({a}) => a + 1'',
             run = (\<lambda>ds i. case map_of ds ''a'' of Some (Num x) \<Rightarrow> Return (Num (x + 1)) | _ \<Rightarrow> Throw Undefined)\<rparr>)"

definition example_spec :: "(key \<times> raw) list" where
  "example_spec = [(''a'', RFunction 0), (''b'', RArray [RArray [RString ''a''], RFunction 1])]"

definition example_single :: "(key \<times> raw) list" where
  "example_single = [(''a'', RFunction 0), (''b'', RArray [RString ''a'', RFunction 1])]"

text \<open>What one dependency adds to the cost of a path, given the \<open>getCostedPaths\<close> used.\<close>

definition depCost :: "(key \<Rightarrow> (err + costed list) option) \<Rightarrow> (key \<rightharpoonup> nat) \<Rightarrow> key \<Rightarrow> rat" where
  "depCost gcp cache d =
     (if cache d \<noteq> None then 0
      else (case gcp d of Some (Inr cps) \<Rightarrow> Min (cost ` set cps) | _ \<Rightarrow> 0))"

text \<open>A specification, a cost table and a cache to estimate a cost on: \<open>a\<close> has two
  producers with a history, \<open>b\<close> depends on \<open>a\<close> and on the cached \<open>z\<close>.\<close>

definition cost_spec :: nspec where
  "cost_spec = [''a'' \<mapsto> [\<lparr>dependencies = [], fn = Given 0\<rparr>, \<lparr>dependencies = [], fn = Given 2\<rparr>],
                ''b'' \<mapsto> [\<lparr>dependencies = [''a'', ''z''], fn = Given 1\<rparr>]]"

definition cost_stats :: stats_map where
  "cost_stats = [Given 0 \<mapsto> \<lparr>avg = 3, count = 2\<rparr>, Given 2 \<mapsto> \<lparr>avg = 7, count = 1\<rparr>]"

definition cost_cache :: "key \<rightharpoonup> nat" where
  "cost_cache = [''z'' \<mapsto> 0]"

definition cost_path :: path where
  "cost_path = \<lparr>dependencies = [''a'', ''z''], fn = Given 1\<rparr>"

text \<open>A state whose specification has the key \<open>k\<close>, depending on \<open>d\<close>, and no entry for
  \<open>d\<close>; one scope with an empty cache.\<close>

definition broken_state :: state where
  "broken_state = \<lparr>spec = [''k'' \<mapsto> [\<lparr>dependencies = [''d''], fn = Given 0\<rparr>]], stats = Map.empty,
     emitted = [], caches = [Map.empty], promises = [], cells = [], now = 0, calls = [],
     attempts = [], closures = 0\<rparr>"

section \<open>Invariants of the promise heap and of the caches\<close>

definition rejected :: "outcome \<Rightarrow> bool" where
  "rejected out \<longleftrightarrow> (\<exists>e. out = Rejected e)"

definition fulfilled :: "outcome \<Rightarrow> bool" where
  "fulfilled out \<longleftrightarrow> (\<exists>v. out = Fulfilled v)"

definition is_attempt :: "state \<Rightarrow> pid \<Rightarrow> key option \<Rightarrow> key list \<Rightarrow> bool" where
  "is_attempt s r nm ds \<longleftrightarrow>
     r < length (promises s) \<and>
     (\<exists>t rs cell. origin (promises s ! r) = ThenOf t (Some (EmitTiming nm ds rs cell)) None)"

definition is_record :: "state \<Rightarrow> pid \<Rightarrow> fn \<Rightarrow> bool" where
  "is_record s r f \<longleftrightarrow>
     r < length (promises s) \<and>
     (\<exists>p t. origin (promises s ! r) = ThenOf p (Some (RecordOk f t)) (Some (RecordErr f)))"

definition mirrors :: "state \<Rightarrow> pid \<Rightarrow> pid \<Rightarrow> bool" where
  "mirrors s q x \<longleftrightarrow>
     follows (promises s ! q) = None \<and>
     (outcome (promises s ! q) \<noteq> Pending \<longrightarrow> outcome (promises s ! q) = outcome_of s x)"

definition guard_ok :: "state \<Rightarrow> pid \<Rightarrow> pid \<Rightarrow> cid \<Rightarrow> key \<Rightarrow> bool" where
  "guard_ok s q x c k \<longleftrightarrow>
     c < length (caches s) \<and> mirrors s q x \<and>
     (outcome (promises s ! q) = Pending \<longrightarrow> cache_of s c k = Some q) \<and>
     (rejected (outcome (promises s ! q)) \<longrightarrow> cache_of s c k \<noteq> Some q)"

definition link_ok :: "state \<Rightarrow> pid \<Rightarrow> pid \<Rightarrow> cid \<Rightarrow> key \<Rightarrow> path \<Rightarrow> bool" where
  "link_ok s q x c k p \<longleftrightarrow>
     c < length (caches s) \<and>
     (follows (promises s ! q) = None \<longrightarrow>
        (\<forall>v. outcome (promises s ! q) = Fulfilled v \<longrightarrow> outcome_of s x = Fulfilled v)) \<and>
     (rejected (outcome (promises s ! q)) \<or> follows (promises s ! q) \<noteq> None \<longrightarrow>
        rejected (outcome_of s x) \<and> (c, Some k, fn p) \<in> set (attempts s)) \<and>
     (\<forall>r. follows (promises s ! q) = Some r \<longrightarrow>
        is_attempt s r (Some k) (dependencies p) \<and>
        (outcome (promises s ! q) \<noteq> Pending \<longrightarrow> outcome (promises s ! q) = outcome_of s r))"

definition task_ok :: "state \<Rightarrow> pid \<Rightarrow> pid \<Rightarrow> fn \<Rightarrow> bool" where
  "task_ok s q x f \<longleftrightarrow>
     (follows (promises s ! q) = None \<longrightarrow>
        \<not> fulfilled (outcome (promises s ! q)) \<and>
        (outcome (promises s ! q) \<noteq> Pending \<longrightarrow> outcome (promises s ! q) = outcome_of s x)) \<and>
     (\<forall>r. follows (promises s ! q) = Some r \<longrightarrow>
        fulfilled (outcome_of s x) \<and> is_record s r f \<and>
        (outcome (promises s ! q) \<noteq> Pending \<longrightarrow> outcome (promises s ! q) = outcome_of s r))"

definition all_ok :: "state \<Rightarrow> pid \<Rightarrow> pid list \<Rightarrow> bool" where
  "all_ok s q ps \<longleftrightarrow>
     follows (promises s ! q) = None \<and> (\<forall>p\<in>set ps. p < q) \<and>
     (\<forall>v. outcome (promises s ! q) = Fulfilled v \<longrightarrow>
        (\<forall>p\<in>set ps. fulfilled (outcome_of s p)) \<and> v = Arr (map (\<lambda>p. as_val (outcome_of s p)) ps)) \<and>
     (\<forall>e. outcome (promises s ! q) = Rejected e \<longrightarrow> (\<exists>p\<in>set ps. outcome_of s p = Rejected e))"

datatype shape =
    SMade | SProducer | SAll "pid list"
  | SGuard pid cid key | SLink pid cid key path | STask pid fn | SEvent pid | SRecord pid fn
  | SOther

definition shape_of :: "origin \<Rightarrow> shape" where
  "shape_of org =
     (case org of
        Made \<Rightarrow> SMade
      | Producer \<Rightarrow> SProducer
      | AllOf ps \<Rightarrow> SAll ps
      | ThenOf x None (Some (Evict c k)) \<Rightarrow> SGuard x c k
      | ThenOf x None (Some (NextPath c k p)) \<Rightarrow> SLink x c k p
      | ThenOf x (Some (DepsReady cell ds f)) None \<Rightarrow> STask x f
      | ThenOf x (Some (EmitTiming nm ds rs cell)) None \<Rightarrow> SEvent x
      | ThenOf x (Some (RecordOk f t)) (Some (RecordErr g)) \<Rightarrow> if g = f then SRecord x f else SOther
      | _ \<Rightarrow> SOther)"

definition ok_promise :: "state \<Rightarrow> pid \<Rightarrow> bool" where
  "ok_promise s q \<longleftrightarrow>
     (case shape_of (origin (promises s ! q)) of
        SMade \<Rightarrow> outcome (promises s ! q) \<noteq> Pending \<and> follows (promises s ! q) = None
      | SProducer \<Rightarrow> follows (promises s ! q) = None
      | SAll ps \<Rightarrow> all_ok s q ps
      | SGuard x c k \<Rightarrow> x < q \<and> guard_ok s q x c k
      | SLink x c k p \<Rightarrow> x < q \<and> link_ok s q x c k p
      | STask x f \<Rightarrow> x < q \<and> task_ok s q x f
      | SEvent x \<Rightarrow> x < q \<and> mirrors s q x
      | SRecord x f \<Rightarrow> x < q \<and> mirrors s q x \<and> origin (promises s ! x) = Producer
      | SOther \<Rightarrow> False)"

definition cache_ok :: "state \<Rightarrow> bool" where
  "cache_ok s \<longleftrightarrow>
     (\<forall>c<length (caches s). \<forall>k p. (caches s ! c) k = Some p \<longrightarrow>
        p < length (promises s) \<and>
        ((origin (promises s ! p) = Made \<and> fulfilled (outcome (promises s ! p))) \<or>
         (\<exists>x. origin (promises s ! p) = ThenOf x None (Some (Evict c k)))))"

definition emits_ok :: "state \<Rightarrow> bool" where
  "emits_ok s \<longleftrightarrow>
     length (emitted s) =
     length (filter (\<lambda>pr. (\<exists>x. shape_of (origin pr) = SEvent x) \<and> fulfilled (outcome pr)) (promises s))"

definition inv :: "state \<Rightarrow> bool" where
  "inv s \<longleftrightarrow> (\<forall>q<length (promises s). ok_promise s q) \<and> cache_ok s \<and> emits_ok s"

definition grows :: "state \<Rightarrow> state \<Rightarrow> bool" where
  "grows s s' \<longleftrightarrow>
     length (promises s) \<le> length (promises s') \<and>
     (\<forall>q<length (promises s). origin (promises s' ! q) = origin (promises s ! q)) \<and>
     (\<forall>q<length (promises s). outcome (promises s ! q) \<noteq> Pending \<longrightarrow>
        outcome (promises s' ! q) = outcome (promises s ! q)) \<and>
     set (attempts s) \<subseteq> set (attempts s') \<and> length (caches s) \<le> length (caches s')"

definition dep_edge :: "nspec \<Rightarrow> (key \<rightharpoonup> nat) \<Rightarrow> (key \<times> key) set" where
  "dep_edge sp cache =
     {(k, d). \<exists>ps p. sp k = Some ps \<and> p \<in> set ps \<and> d \<in> set (dependencies p) \<and> cache d = None}"

definition estimated :: "nat \<Rightarrow> nspec \<Rightarrow> stats_map \<Rightarrow> (key \<rightharpoonup> nat) \<Rightarrow> key \<Rightarrow> bool" where
  "estimated n sp st cache k \<longleftrightarrow> (\<exists>cps. getCostedPaths n sp st cache k = Some (Inr cps))"

definition fresh_for :: "cid \<Rightarrow> state \<Rightarrow> promise \<Rightarrow> bool" where
  "fresh_for c s pr \<longleftrightarrow>
     (\<forall>x c' k. shape_of (origin pr) = SGuard x c' k \<longrightarrow> c' = c \<and> cache_of s c k = None) \<and>
     (\<forall>x c' k p. shape_of (origin pr) = SLink x c' k p \<longrightarrow> c' = c \<and> cache_of s c k = None)"

definition ext :: "cid \<Rightarrow> state \<Rightarrow> state \<Rightarrow> bool" where
  "ext c s s' \<longleftrightarrow>
     length (promises s) \<le> length (promises s') \<and>
     (\<forall>q<length (promises s). promises s' ! q = promises s ! q) \<and>
     (\<forall>q<length (promises s'). length (promises s) \<le> q \<longrightarrow> fresh_for c s (promises s' ! q)) \<and>
     spec s' = spec s \<and> stats s' = stats s \<and> emitted s' = emitted s \<and> now s' = now s \<and>
     length (caches s') = length (caches s) \<and>
     (\<forall>c'. c' \<noteq> c \<longrightarrow> cache_of s' c' = cache_of s c') \<and> cache_of s c \<subseteq>\<^sub>m cache_of s' c \<and>
     set (attempts s) \<subseteq> set (attempts s') \<and>
     (\<forall>a\<in>set (attempts s') - set (attempts s).
        fst a = c \<and> (\<exists>k. fst (snd a) = Some k \<and> cache_of s c k = None))"

definition added :: "cid \<Rightarrow> state \<Rightarrow> state \<Rightarrow> key set" where
  "added c s s' = {k. cache_of s c k = None \<and> cache_of s' c k \<noteq> None}"

definition reach :: "state \<Rightarrow> cid \<Rightarrow> key \<Rightarrow> key set" where
  "reach s c k = {j. cache_of s c k = None \<and> (k, j) \<in> (dep_edge (spec s) (cache_of s c))\<^sup>*}"

definition good :: "cid \<Rightarrow> (key \<Rightarrow> state \<Rightarrow> pid result) \<Rightarrow> bool" where
  "good c res \<longleftrightarrow>
     (\<forall>k s r s'. inv s \<and> c < length (caches s) \<and> res k s = Some (r, s') \<longrightarrow>
        inv s' \<and> ext c s s' \<and> (\<forall>p. r = Inr p \<longrightarrow> p < length (promises s')) \<and>
        added c s s' \<subseteq> reach s c k)"

definition moves :: "state \<Rightarrow> state \<Rightarrow> bool" where
  "moves s s' \<longleftrightarrow>
     grows s s' \<and>
     (\<forall>c k p. cache_of s c k = Some p \<and> outcome_of s p \<noteq> Pending \<longrightarrow> cache_of s' c k = Some p) \<and>
     (\<forall>a\<in>set (attempts s') - set (attempts s).
        fst (snd a) = None \<or>
        (\<exists>k. fst (snd a) = Some k \<and>
           (cache_of s (fst a) k = None \<or>
            (\<exists>q<length (promises s). \<exists>x p. shape_of (origin (promises s ! q)) = SLink x (fst a) k p)))) \<and>
     (\<forall>q<length (promises s'). length (promises s) \<le> q \<longrightarrow>
        (\<forall>x c k p. shape_of (origin (promises s' ! q)) = SLink x c k p \<longrightarrow> cache_of s c k = None))"

definition orgs :: "state \<Rightarrow> origin list" where
  "orgs s = map origin (promises s)"

definition covered :: "origin list \<Rightarrow> pid \<Rightarrow> bool" where
  "covered os q \<longleftrightarrow>
     (\<forall>x c k p. shape_of (os ! q) = SLink x c k p \<longrightarrow>
        (\<exists>q'<length os. q < q' \<and>
           ((\<exists>p'. shape_of (os ! q') = SLink q c k p') \<or> shape_of (os ! q') = SGuard q c k)))"

definition sourced :: "origin list \<Rightarrow> pid \<Rightarrow> bool" where
  "sourced os q \<longleftrightarrow>
     (\<forall>x. shape_of (os ! q) = SEvent x \<longrightarrow>
        x < q \<and> (\<exists>y f. shape_of (os ! x) = SRecord y f \<or> shape_of (os ! x) = STask y f))"

definition wired_but :: "origin list \<Rightarrow> pid set \<Rightarrow> bool" where
  "wired_but os X \<longleftrightarrow> (\<forall>q<length os. sourced os q \<and> (q \<notin> X \<longrightarrow> covered os q))"

definition wired :: "state \<Rightarrow> bool" where
  "wired s \<longleftrightarrow> wired_but (orgs s) {}"

definition ends :: "cid \<Rightarrow> key \<Rightarrow> origin list \<Rightarrow> pid \<Rightarrow> bool" where
  "ends c k os x \<longleftrightarrow>
     x < length os \<and> (\<forall>z c' k' p. shape_of (os ! x) = SLink z c' k' p \<longrightarrow> c' = c \<and> k' = k)"

definition news :: "cid \<Rightarrow> state \<Rightarrow> (cid \<times> key option \<times> fn) list \<Rightarrow> bool" where
  "news c s new \<longleftrightarrow> (\<forall>a\<in>set new. fst a = c \<and> (\<exists>k. fst (snd a) = Some k \<and> cache_of s c k = None))"

definition good2 :: "cid \<Rightarrow> (key \<Rightarrow> state \<Rightarrow> pid result) \<Rightarrow> bool" where
  "good2 c res \<longleftrightarrow>
     (\<forall>k s r s'. inv s \<and> wired s \<and> c < length (caches s) \<and> res k s = Some (r, s') \<longrightarrow>
        wired s' \<and> (\<exists>new. attempts s' = attempts s @ new \<and> news c s new))"

definition stays :: "state \<Rightarrow> state \<Rightarrow> bool" where
  "stays s s' \<longleftrightarrow>
     spec s' = spec s \<and>
     (\<forall>c k p. cache_of s c k = Some p \<longrightarrow>
        cache_of s' c k = Some p \<or>
        (outcome_of s p = Pending \<and> rejected (outcome_of s' p) \<and> cache_of s' c k = None)) \<and>
     (\<exists>new. attempts s' = attempts s @ new \<and>
        (\<forall>a\<in>set new. fst a < length (caches s) \<and> (fst (snd a) = None \<or>
           (\<exists>k. fst (snd a) = Some k \<and>
              (cache_of s (fst a) k = None \<or>
               (\<exists>q<length (promises s). \<exists>x p. shape_of (origin (promises s ! q)) = SLink x (fst a) k p \<and>
                   outcome (promises s ! q) = Pending \<and> fn p = snd (snd a)))))))"

definition run :: "nat \<Rightarrow> env \<Rightarrow> (key \<times> raw) list \<Rightarrow> int \<Rightarrow> event list \<Rightarrow> state option" where
  "run n env rawspec t evs =
     (case Orchestrator env rawspec t of Inl e \<Rightarrow> None | Inr s0 \<Rightarrow> exec n env evs s0)"

text \<open>A producer that throws, a key with one producer and a key with two dependency paths,
  and the states after \<open>scope.k()\<close>, before and after the handlers have run.\<close>

definition failing_env :: env where
  "failing_env n = \<lparr>len = 0, source = ''() => { throw 1 }'', run = (\<lambda>ds i. Throw (Num 1))\<rparr>"

definition failing_spec :: "(key \<times> raw) list" where
  "failing_spec = [(''k'', RFunction 0)]"

definition two_paths :: "(key \<times> raw) list" where
  "two_paths = [(''k'', RArray [RArray [RFunction 0], RArray [RFunction 1]])]"

definition example_run :: state where
  "example_run = the (run 10 example_env example_single 0 [NewScope [], Call 0 ''b''])"

definition failing_run :: state where
  "failing_run = the (run 10 failing_env failing_spec 0 [NewScope [], Call 0 ''k''])"

definition failed_run :: state where
  "failed_run = the (run 10 failing_env failing_spec 0 [NewScope [], Call 0 ''k'', Fire 1, Fire 2])"

text \<open>A scope seeded with a value for \<open>a\<close>, and the state after \<open>scope.b()\<close> and the
  handlers.\<close>

definition seeded_start :: state where
  "seeded_start = snd (Orchestration [(''a'', Num 5)] (the (run 10 example_env example_single 0 [])))"

definition seeded_end :: state where
  "seeded_end = the (exec 10 example_env [Call 0 ''b'', Fire 1, Fire 2, Fire 6, Fire 2, Fire 3, Fire 4]
     seeded_start)"

text \<open>The key with two paths whose producers both throw: the new scope, the state after
  \<open>scope.k()\<close>, and the state after all the handlers.\<close>

definition both_start :: state where
  "both_start = the (run 10 failing_env two_paths 0 [NewScope []])"

definition both_called :: state where
  "both_called = snd (the (resolve (Suc 9) failing_env 0 ''k'' both_start))"

definition both_end :: state where
  "both_end = the (exec 10 failing_env [Fire 1, Fire 2, Fire 3, Fire 6, Fire 7, Fire 3, Fire 4] both_called)"

text \<open>The promise a promise was made from, and the chain of \<open>catch\<close> that \<open>fetchResult\<close>
  builds: \<open>chained s c k x ps y\<close> when \<open>y\<close> is reached from \<open>x\<close> by one \<open>catch\<close> for each path
  of \<open>ps\<close>, the last path first.\<close>

fun parent :: "origin \<Rightarrow> pid" where
  "parent (ThenOf x ok er) = x"
| "parent org = 0"

fun chained :: "state \<Rightarrow> cid \<Rightarrow> key \<Rightarrow> pid \<Rightarrow> path list \<Rightarrow> pid \<Rightarrow> bool" where
  "chained s c k x [] y = (y = x)"
| "chained s c k x (p # ps) y =
     (y < length (promises s) \<and>
      origin (promises s ! y) = ThenOf (parent (origin (promises s ! y))) None (Some (NextPath c k p)) \<and>
      parent (origin (promises s ! y)) < y \<and>
      chained s c k x ps (parent (origin (promises s ! y))))"

section \<open>Cost statistics\<close>

lemma recordAll_snoc: "recordAll f (ds @ [d]) st = recordCost f d (recordAll f ds st)"
  by (simp add: recordAll_def)

lemma recordAll_mean:
  "st f = None \<Longrightarrow> ds \<noteq> [] \<Longrightarrow>
   recordAll f ds st f = Some \<lparr>avg = sum_list ds / of_nat (length ds), count = length ds\<rparr>"
proof (induction ds rule: rev_induct)
  case Nil
  then show ?case by simp
next
  case (snoc d ds)
  show ?case
  proof (cases "ds = []")
    case True
    with snoc.prems show ?thesis by (simp add: recordAll_def recordCost_def)
  next
    case False
    with snoc have IH: "recordAll f ds st f = Some \<lparr>avg = sum_list ds / of_nat (length ds), count = length ds\<rparr>"
      by simp
    from False have "length ds \<noteq> 0" by simp
    with IH show ?thesis
      by (simp add: recordAll_snoc recordCost_def Let_def)
  qed
qed

lemma recordAll_other: "g \<noteq> f \<Longrightarrow> recordAll f ds st g = st g"
  by (induction ds rule: rev_induct) (simp_all add: recordAll_def recordCost_def Let_def)

lemma sum_list_Nats: "set ds \<subseteq> \<nat> \<Longrightarrow> sum_list ds \<in> (\<nat> :: rat set)"
  by (induction ds) auto




section \<open>Cost estimation\<close>

lemma costPaths_Inr:
  "costPaths gc ps = Some (Inr cps) \<Longrightarrow>
   list_all2 (\<lambda>p cp. path cp = p \<and> gc p = Some (Inr (cost cp))) ps cps"
  by (induction ps arbitrary: cps) (auto split: option.splits sum.splits)

lemma costPaths_err:
  "costPaths gc ps = Some (Inl e) \<Longrightarrow> \<exists>p\<in>set ps. gc p = Some (Inl e)"
  by (induction ps) (auto split: option.splits sum.splits)

lemma getCostedPaths_Inr:
  assumes "getCostedPaths n sp st cache k = Some (Inr cps)"
  shows "\<exists>m ps. n = Suc m \<and> sp k = Some ps \<and>
           list_all2 (\<lambda>p cp. path cp = p \<and> getCost m sp st cache p = Some (Inr (cost cp))) ps cps"
proof (cases n)
  case 0
  with assms show ?thesis by simp
next
  case (Suc m)
  with assms obtain ps where ps: "sp k = Some ps"
    and cp: "costPaths (getCostWith (getCostedPaths m sp st cache) st cache) ps = Some (Inr cps)"
    by (auto split: option.splits)
  from costPaths_Inr[OF cp] Suc ps show ?thesis
    by (auto simp: getCost_def)
qed

lemma champion_cost: "cost (champion a b) = min (cost a) (cost b)"
  by (simp add: champion_def min_def)

lemma foldl_champion_cost: "cost (foldl champion c cs) = Min (cost ` set (c # cs))"
proof (induction cs arbitrary: c)
  case Nil
  show ?case by simp
next
  case (Cons x xs)
  have "cost (foldl champion c (x # xs)) = Min (cost ` set (champion c x # xs))"
    using Cons.IH by simp
  also have "\<dots> = Min (cost ` set (c # x # xs))"
    by (cases xs) (simp_all add: champion_cost min.assoc)
  finally show ?case .
qed

lemma sumDeps_Inr:
  "sumDeps gcp cache ds acc = Some (Inr r) \<Longrightarrow>
   r = acc + (\<Sum>d\<leftarrow>ds. depCost gcp cache d) \<and>
   (\<forall>d\<in>set ds. cache d = None \<longrightarrow> (\<exists>cps. gcp d = Some (Inr cps) \<and> cps \<noteq> []))"
proof (induction ds arbitrary: acc)
  case Nil
  then show ?case by simp
next
  case (Cons d ds)
  show ?case
  proof (cases "cache d \<noteq> None")
    case True
    with Cons.prems have "sumDeps gcp cache ds acc = Some (Inr r)" by simp
    from Cons.IH[OF this] True show ?thesis by (auto simp: depCost_def)
  next
    case False
    with Cons.prems obtain c cs where g: "gcp d = Some (Inr (c # cs))"
      and r: "sumDeps gcp cache ds (acc + cost (foldl champion c cs)) = Some (Inr r)"
      by (auto split: option.splits sum.splits list.splits)
    have "depCost gcp cache d = cost (foldl champion c cs)"
      using False g by (simp add: depCost_def foldl_champion_cost del: foldl_Cons)
    with Cons.IH[OF r] False g show ?thesis by auto
  qed
qed

lemma sumDeps_err:
  "sumDeps gcp cache ds acc = Some (Inl e) \<Longrightarrow>
   e = TypeError \<or> (\<exists>d\<in>set ds. gcp d = Some (Inl e))"
  by (induction ds arbitrary: acc) (auto split: option.splits sum.splits list.splits if_splits)

lemma getCostedPaths_err: "getCostedPaths n sp st cache k = Some (Inl e) \<Longrightarrow> e = TypeError"
proof (induction n arbitrary: k e)
  case 0
  then show ?case by simp
next
  case (Suc n)
  show ?case
  proof (cases "sp k")
    case None
    with Suc.prems show ?thesis by simp
  next
    case (Some ps)
    with Suc.prems have "costPaths (getCostWith (getCostedPaths n sp st cache) st cache) ps = Some (Inl e)"
      by simp
    from costPaths_err[OF this] obtain p where
      "getCostWith (getCostedPaths n sp st cache) st cache p = Some (Inl e)" by auto
    then have "sumDeps (getCostedPaths n sp st cache) cache (dependencies p) 0 = Some (Inl e)"
      by (auto simp: getCostWith_def split: option.splits sum.splits)
    from sumDeps_err[OF this] Suc.IH show ?thesis by auto
  qed
qed

lemma min_path_cost:
  assumes "list_all2 (\<lambda>p cp. path cp = p \<and> gc p = Some (Inr (cost cp))) ps cps"
  shows "{c'. \<exists>q\<in>set ps. gc q = Some (Inr c')} = cost ` set cps"
proof -
  from assms have "\<forall>cp\<in>set cps. path cp \<in> set ps \<and> gc (path cp) = Some (Inr (cost cp))"
    by (induction rule: list_all2_induct) auto
  moreover from assms have "\<forall>q\<in>set ps. \<exists>cp\<in>set cps. gc q = Some (Inr (cost cp))"
    by (induction rule: list_all2_induct) auto
  ultimately show ?thesis by force
qed

lemma getCost_unfold:
  assumes "getCost n sp st cache p = Some (Inr c)"
  shows "c = (case st (fn p) of None \<Rightarrow> EPSILON | Some x \<Rightarrow> if avg x = 0 then EPSILON else avg x)
           + (\<Sum>d\<leftarrow>dependencies p.
                if cache d \<noteq> None then 0
                else Min {c'. \<exists>q\<in>set (the (sp d)). getCost (n - 1) sp st cache q = Some (Inr c')})
         \<and> (\<forall>d\<in>set (dependencies p). cache d = None \<longrightarrow>
               sp d \<noteq> None \<and> the (sp d) \<noteq> [] \<and>
               (\<forall>q\<in>set (the (sp d)). \<exists>c'. getCost (n - 1) sp st cache q = Some (Inr c')))"
proof -
  let ?gcp = "getCostedPaths n sp st cache"
  from assms obtain r where r: "sumDeps ?gcp cache (dependencies p) 0 = Some (Inr r)"
    and c: "c = selfCost st (fn p) + r"
    by (auto simp: getCost_def getCostWith_def split: option.splits sum.splits)
  note sd = sumDeps_Inr[OF r]
  have dep: "cache d = None \<Longrightarrow> d \<in> set (dependencies p) \<Longrightarrow>
      sp d \<noteq> None \<and> the (sp d) \<noteq> [] \<and>
      (\<forall>q\<in>set (the (sp d)). \<exists>c'. getCost (n - 1) sp st cache q = Some (Inr c')) \<and>
      depCost ?gcp cache d = Min {c'. \<exists>q\<in>set (the (sp d)). getCost (n - 1) sp st cache q = Some (Inr c')}" for d
  proof -
    assume u: "cache d = None" and m: "d \<in> set (dependencies p)"
    with sd obtain cps where cps: "?gcp d = Some (Inr cps)" "cps \<noteq> []" by blast
    from getCostedPaths_Inr[OF cps(1)] obtain m ps where n: "n = Suc m" and ps: "sp d = Some ps"
      and l: "list_all2 (\<lambda>p cp. path cp = p \<and> getCost m sp st cache p = Some (Inr (cost cp))) ps cps"
      by blast
    from l cps(2) have ne: "ps \<noteq> []" by auto
    from l have all: "\<forall>q\<in>set ps. \<exists>c'. getCost m sp st cache q = Some (Inr c')"
      by (induction rule: list_all2_induct) auto
    have "depCost ?gcp cache d = Min (cost ` set cps)"
      using u cps by (simp add: depCost_def)
    with min_path_cost[OF l] n ps ne all show ?thesis by simp
  qed
  have "(\<Sum>d\<leftarrow>dependencies p. depCost ?gcp cache d) =
        (\<Sum>d\<leftarrow>dependencies p.
                if cache d \<noteq> None then 0
                else Min {c'. \<exists>q\<in>set (the (sp d)). getCost (n - 1) sp st cache q = Some (Inr c')})"
    by (rule arg_cong[where f = sum_list], rule map_cong) (auto simp: dep, simp add: depCost_def)
  with sd c dep show ?thesis
    by (auto simp: selfCost_def)
qed



lemma cost_path_value:
  "getCost 1 cost_spec cost_stats cost_cache cost_path = Some (Inr (EPSILON + 3))"
  by (simp add: getCost_def getCostWith_def cost_spec_def cost_stats_def cost_cache_def cost_path_def
      selfCost_def champion_def)


section \<open>Undefined keys\<close>




lemma getCostedPaths_undefined_dep:
  assumes "sp k = Some ps" and "p \<in> set ps" and "d \<in> set (dependencies p)"
    and "cache d = None" and "sp d = None"
  shows "getCostedPaths n sp st cache k = None \<or> getCostedPaths n sp st cache k = Some (Inl TypeError)"
proof (cases "getCostedPaths n sp st cache k")
  case None
  then show ?thesis by simp
next
  case (Some r)
  show ?thesis
  proof (cases r)
    case (Inl e)
    with Some getCostedPaths_err[of n sp st cache k e] show ?thesis by simp
  next
    case (Inr cps)
    with Some have g: "getCostedPaths n sp st cache k = Some (Inr cps)" by simp
    from getCostedPaths_Inr[OF g] assms(1) obtain m where n: "n = Suc m"
      and l: "list_all2 (\<lambda>p cp. path cp = p \<and> getCost m sp st cache p = Some (Inr (cost cp))) ps cps"
      by auto
    from l assms(2) obtain c where "getCost m sp st cache p = Some (Inr c)"
      by (induction rule: list_all2_induct) auto
    from getCost_unfold[OF this] assms(3,4,5) show ?thesis by blast
  qed
qed





section \<open>The example of the specification\<close>

text \<open>
  C9, as the specification states it, fails: for \<open>{ a: () => 1, b: [['a'], ({a}) => a + 1] }\<close>
  the first element of the entry of \<open>b\<close> is an array, so the entry is read as a list of
  paths, and its first path \<open>['a']\<close> does not end in a function: the constructor throws.
\<close>

theorem example_spec_rejected:
  "Orchestrator example_env example_spec 0 = Inl (InvalidDependentFn (RArray [RString ''a'']))"
  by (simp add: Orchestrator_def example_spec_def)

text \<open>
  C9, amended: with \<open>b\<close> written as the single path \<open>['a', ({a}) => a + 1]\<close> normalization
  succeeds, \<open>scope.b()\<close> is fulfilled with \<open>2\<close> once the handlers have run, and \<open>scope.a()\<close>
  afterwards returns a promise fulfilled with \<open>1\<close> without any further producer call.
\<close>

theorem example_single_resolves:
  "(case Orchestrator example_env example_single 0 of
      Inl e \<Rightarrow> False
    | Inr s0 \<Rightarrow>
       (case resolve 10 example_env 0 ''b'' (snd (Orchestration [] s0)) of
          Some (Inr b, s1) \<Rightarrow>
            (case exec 10 example_env [Fire 1, Fire 2, Fire 3, Fire 4, Fire 5, Fire 9, Fire 5, Fire 6, Fire 7] s1 of
               Some s2 \<Rightarrow>
                 outcome_of s2 b = Fulfilled (Num 2) \<and>
                 (case resolve 10 example_env 0 ''a'' s2 of
                    Some (Inr a, s3) \<Rightarrow>
                      outcome_of s3 a = Fulfilled (Num 1) \<and> calls s3 = calls s2 \<and>
                      map fst (calls s3) = [Wrapped ''a'' 0, Given 1]
                  | _ \<Rightarrow> False)
             | None \<Rightarrow> False)
        | _ \<Rightarrow> False))"
  by code_simp

lemma grows_refl: "grows s s"
  by (simp add: grows_def)

lemma grows_trans: "grows s s1 \<Longrightarrow> grows s1 s2 \<Longrightarrow> grows s s2"
  unfolding grows_def by (auto simp: subset_eq)

lemma grows_outcome_of:
  "grows s s' \<Longrightarrow> outcome_of s r \<noteq> Pending \<Longrightarrow> outcome_of s' r = outcome_of s r"
  by (auto simp: grows_def outcome_of_def split: if_splits)

lemma grows_is_attempt: "grows s s' \<Longrightarrow> is_attempt s r nm ds \<Longrightarrow> is_attempt s' r nm ds"
  by (auto simp: grows_def is_attempt_def)

lemma grows_is_record: "grows s s' \<Longrightarrow> is_record s r f \<Longrightarrow> is_record s' r f"
  by (auto simp: grows_def is_record_def)

lemma rejected_simps [simp]:
  "rejected (Rejected e)" "\<not> rejected Pending" "\<not> rejected (Fulfilled v)"
  "fulfilled (Fulfilled v)" "\<not> fulfilled Pending" "\<not> fulfilled (Rejected e)"
  by (simp_all add: rejected_def fulfilled_def)

lemma rejected_not_Pending: "rejected out \<Longrightarrow> out \<noteq> Pending"
  by (auto simp: rejected_def)

lemma fulfilled_not_Pending: "fulfilled out \<Longrightarrow> out \<noteq> Pending"
  by (auto simp: fulfilled_def)

lemma mirrors_grows:
  assumes "mirrors s q x" and "grows s s'" and "promises s' ! q = promises s ! q"
  shows "mirrors s' q x"
  using assms grows_outcome_of[OF assms(2), of x] by (auto simp: mirrors_def)

lemma ok_promise_grows:
  assumes ok: "ok_promise s q" and q: "q < length (promises s)" and g: "grows s s'"
    and same: "promises s' ! q = promises s ! q"
    and cache: "\<And>c k. c < length (caches s) \<Longrightarrow> cache_of s' c k = Some q \<longleftrightarrow> cache_of s c k = Some q"
  shows "ok_promise s' q"
proof (cases "shape_of (origin (promises s ! q))")
  case SMade
  with ok same show ?thesis by (simp add: ok_promise_def)
next
  case SProducer
  with ok same show ?thesis by (simp add: ok_promise_def)
next
  case (SAll ps)
  with ok have a: "all_ok s q ps" by (simp add: ok_promise_def)
  have "all_ok s' q ps"
    unfolding all_ok_def
  proof (intro conjI allI impI)
    show "follows (promises s' ! q) = None" using a same by (simp add: all_ok_def)
    show "\<forall>p\<in>set ps. p < q" using a by (simp add: all_ok_def)
  next
    fix v assume "outcome (promises s' ! q) = Fulfilled v"
    with a same have f: "\<forall>p\<in>set ps. fulfilled (outcome_of s p)"
      and v: "v = Arr (map (\<lambda>p. as_val (outcome_of s p)) ps)"
      by (auto simp: all_ok_def)
    from f have e: "\<forall>p\<in>set ps. outcome_of s' p = outcome_of s p"
      using grows_outcome_of[OF g] fulfilled_not_Pending by blast
    with f show "\<forall>p\<in>set ps. fulfilled (outcome_of s' p)" by simp
    from e v show "v = Arr (map (\<lambda>p. as_val (outcome_of s' p)) ps)" by simp
  next
    fix e assume "outcome (promises s' ! q) = Rejected e"
    with a same obtain p where "p \<in> set ps" "outcome_of s p = Rejected e"
      by (auto simp: all_ok_def)
    with grows_outcome_of[OF g, of p] show "\<exists>p\<in>set ps. outcome_of s' p = Rejected e" by auto
  qed
  with SAll same show ?thesis by (simp add: ok_promise_def)
next
  case (SGuard x c k)
  with ok have a: "x < q" "guard_ok s q x c k" by (simp_all add: ok_promise_def)
  then have "guard_ok s' q x c k"
    using mirrors_grows[OF _ g same, of x] cache[of c k] g same
    by (auto simp: guard_ok_def grows_def)
  with SGuard same a show ?thesis by (simp add: ok_promise_def)
next
  case (SLink x c k p)
  with ok have a: "x < q" "link_ok s q x c k p" by (simp_all add: ok_promise_def)
  have keep: "outcome_of s' y = outcome_of s y" if "outcome_of s y \<noteq> Pending" for y
    using grows_outcome_of[OF g, of y] that by simp
  have "link_ok s' q x c k p"
    unfolding link_ok_def same
  proof (intro conjI allI impI)
    show "c < length (caches s')" using a(2) g by (auto simp: link_ok_def grows_def)
  next
    fix v assume "follows (promises s ! q) = None" "outcome (promises s ! q) = Fulfilled v"
    with a(2) have "outcome_of s x = Fulfilled v" by (simp add: link_ok_def)
    with keep[of x] show "outcome_of s' x = Fulfilled v" by simp
  next
    assume h: "rejected (outcome (promises s ! q)) \<or> follows (promises s ! q) \<noteq> None"
    with a(2) have r: "rejected (outcome_of s x)" and m: "(c, Some k, fn p) \<in> set (attempts s)"
      unfolding link_ok_def by blast+
    from r keep[of x] show "rejected (outcome_of s' x)" by (auto simp: rejected_def)
    from m g show "(c, Some k, fn p) \<in> set (attempts s')" by (auto simp: grows_def)
  next
    fix r assume h: "follows (promises s ! q) = Some r"
    with a(2) have ia: "is_attempt s r (Some k) (dependencies p)"
      and o: "outcome (promises s ! q) \<noteq> Pending \<longrightarrow> outcome (promises s ! q) = outcome_of s r"
      by (simp_all add: link_ok_def)
    from grows_is_attempt[OF g ia] show "is_attempt s' r (Some k) (dependencies p)" .
    show "outcome (promises s ! q) = outcome_of s' r" if "outcome (promises s ! q) \<noteq> Pending"
      using o that keep[of r] by simp
  qed
  with SLink same a show ?thesis by (simp add: ok_promise_def)
next
  case (STask x f)
  with ok have a: "x < q" "task_ok s q x f" by (simp_all add: ok_promise_def)
  have keep: "outcome_of s' y = outcome_of s y" if "outcome_of s y \<noteq> Pending" for y
    using grows_outcome_of[OF g, of y] that by simp
  have "task_ok s' q x f"
    unfolding task_ok_def same
  proof (intro conjI allI impI)
    assume h: "follows (promises s ! q) = None"
    with a(2) show "\<not> fulfilled (outcome (promises s ! q))" by (simp add: task_ok_def)
    show "outcome (promises s ! q) = outcome_of s' x" if "outcome (promises s ! q) \<noteq> Pending"
      using a(2) h that keep[of x] by (simp add: task_ok_def)
  next
    fix r assume h: "follows (promises s ! q) = Some r"
    with a(2) have fx: "fulfilled (outcome_of s x)" and ir: "is_record s r f"
      and o: "outcome (promises s ! q) \<noteq> Pending \<longrightarrow> outcome (promises s ! q) = outcome_of s r"
      by (simp_all add: task_ok_def)
    from fx keep[of x] show "fulfilled (outcome_of s' x)" by (auto simp: fulfilled_def)
    from grows_is_record[OF g ir] show "is_record s' r f" .
    show "outcome (promises s ! q) = outcome_of s' r" if "outcome (promises s ! q) \<noteq> Pending"
      using o that keep[of r] by simp
  qed
  with STask same a show ?thesis by (simp add: ok_promise_def)
next
  case (SEvent x)
  with ok same mirrors_grows[OF _ g same, of x] show ?thesis by (simp add: ok_promise_def)
next
  case (SRecord x f)
  with ok same mirrors_grows[OF _ g same, of x] g q show ?thesis
    by (auto simp: ok_promise_def grows_def)
next
  case SOther
  with ok show ?thesis by (simp add: ok_promise_def)
qed

section \<open>Primitive transitions\<close>

lemma outcome_of_append:
  "outcome_of (s\<lparr>promises := promises s @ [pr]\<rparr>) r =
     (if r < length (promises s) then outcome_of s r
      else if r = length (promises s) then outcome pr else Pending)"
  by (auto simp: outcome_of_def nth_append)

lemma cache_of_promises [simp]: "cache_of (s\<lparr>promises := ps\<rparr>) = cache_of s"
  by (simp add: cache_of_def fun_eq_iff)

lemma grows_append: "grows s (s\<lparr>promises := promises s @ [pr]\<rparr>)"
  by (simp add: grows_def nth_append)

text \<open>Appending a promise that is right on its own keeps the invariant.\<close>

lemma inv_append:
  assumes "inv s" and new: "ok_promise (s\<lparr>promises := promises s @ [pr]\<rparr>) (length (promises s))"
    and ev: "\<not> ((\<exists>x. shape_of (origin pr) = SEvent x) \<and> fulfilled (outcome pr))"
  shows "inv (s\<lparr>promises := promises s @ [pr]\<rparr>)"
proof -
  let ?s = "s\<lparr>promises := promises s @ [pr]\<rparr>"
  have "ok_promise ?s q" if "q < length (promises ?s)" for q
  proof (cases "q < length (promises s)")
    case True
    with assms(1) have "ok_promise s q" by (simp add: inv_def)
    from ok_promise_grows[OF this True grows_append, of pr] True show ?thesis
      by (simp add: nth_append)
  next
    case False
    with that have "q = length (promises s)" by simp
    with new show ?thesis by simp
  qed
  moreover have "cache_ok ?s"
    using assms(1) by (auto simp: inv_def cache_ok_def nth_append less_Suc_eq)
  moreover have "emits_ok ?s"
    using assms(1) ev by (auto simp: inv_def emits_ok_def)
  ultimately show ?thesis by (simp add: inv_def)
qed

text \<open>The fields that the invariant does not read.\<close>

lemma inv_frame:
  assumes "inv s" and "promises s' = promises s" and "caches s' = caches s"
    and "set (attempts s) \<subseteq> set (attempts s')" and "emitted s' = emitted s"
  shows "inv s'"
proof -
  have g: "grows s s'" using assms by (simp add: grows_def)
  have c: "cache_of s' = cache_of s" using assms by (simp add: cache_of_def fun_eq_iff)
  have "ok_promise s' q" if "q < length (promises s')" for q
    using ok_promise_grows[OF _ _ g, of q] assms that c by (simp add: inv_def)
  moreover have "cache_ok s'" using assms by (simp add: inv_def cache_ok_def)
  moreover have "emits_ok s'" using assms by (simp add: inv_def emits_ok_def)
  ultimately show ?thesis by (simp add: inv_def)
qed

lemma shape_of_simps [simp]:
  "shape_of Made = SMade" "shape_of Producer = SProducer" "shape_of (AllOf ps) = SAll ps"
  "shape_of (ThenOf x None (Some (Evict c k))) = SGuard x c k"
  "shape_of (ThenOf x None (Some (NextPath c k p))) = SLink x c k p"
  "shape_of (ThenOf x (Some (DepsReady cell ds f)) None) = STask x f"
  "shape_of (ThenOf x (Some (EmitTiming nm ds rs cell)) None) = SEvent x"
  "shape_of (ThenOf x (Some (RecordOk f t)) (Some (RecordErr f))) = SRecord x f"
  by (simp_all add: shape_of_def)

lemma inv_alloc_link:
  assumes "inv s" and "x < length (promises s)" and "c < length (caches s)"
  shows "inv (snd (then_p x None (Some (NextPath c k p)) s))"
  unfolding then_p_def alloc_def snd_conv
  by (rule inv_append[OF assms(1)])
     (use assms in \<open>simp_all add: ok_promise_def link_ok_def nth_append\<close>)

lemma inv_alloc_task:
  assumes "inv s" and "x < length (promises s)"
  shows "inv (snd (then_p x (Some (DepsReady cell ds f)) None s))"
  unfolding then_p_def alloc_def snd_conv
  by (rule inv_append[OF assms(1)])
     (use assms in \<open>simp_all add: ok_promise_def task_ok_def nth_append\<close>)

lemma inv_alloc_event:
  assumes "inv s" and "x < length (promises s)"
  shows "inv (snd (then_p x (Some (EmitTiming nm ds rs cell)) None s))"
  unfolding then_p_def alloc_def snd_conv
  by (rule inv_append[OF assms(1)])
     (use assms in \<open>simp_all add: ok_promise_def mirrors_def nth_append\<close>)

lemma inv_alloc_all:
  assumes "inv s" and "\<forall>p\<in>set ps. p < length (promises s)"
  shows "inv (snd (Promise_all ps s))"
  unfolding Promise_all_def alloc_def snd_conv
  by (rule inv_append[OF assms(1)])
     (use assms in \<open>simp_all add: ok_promise_def all_ok_def nth_append\<close>)

lemma inv_alloc_made:
  assumes "inv s" and "out \<noteq> Pending"
  shows "inv (snd (alloc Made out s))"
  unfolding alloc_def snd_conv
  by (rule inv_append[OF assms(1)])
     (use assms in \<open>simp_all add: ok_promise_def nth_append\<close>)

lemma inv_execute:
  assumes "inv s"
  shows "inv (snd (execute env f ds s))"
proof -
  let ?s1 = "s\<lparr>calls := calls s @ [(f, ds)]\<rparr>"
  have 1: "inv ?s1" by (rule inv_frame[OF assms]) simp_all
  let ?pr = "\<lparr>origin = Producer, outcome = responded (respond env f ds (length (calls s))), follows = None\<rparr>"
  let ?s2 = "?s1\<lparr>promises := promises ?s1 @ [?pr]\<rparr>"
  have 2: "inv ?s2"
    by (rule inv_append[OF 1]) (simp_all add: ok_promise_def nth_append)
  let ?q = "\<lparr>origin = ThenOf (length (promises s)) (Some (RecordOk f (now s))) (Some (RecordErr f)),
             outcome = Pending, follows = None\<rparr>"
  have 3: "inv (?s2\<lparr>promises := promises ?s2 @ [?q]\<rparr>)"
    by (rule inv_append[OF 2]) (simp_all add: ok_promise_def mirrors_def nth_append)
  show ?thesis
    using 3 by (simp add: execute_def Promise_try_def Promise_fromCallback_def alloc_def then_p_def Let_def)
qed

section \<open>Dependencies that the cost estimation walks\<close>

lemma estimated_edge:
  assumes "estimated n sp st cache k" and "(k, d) \<in> dep_edge sp cache"
  shows "\<exists>m<n. estimated m sp st cache d"
proof -
  from assms(1) obtain cps where g: "getCostedPaths n sp st cache k = Some (Inr cps)"
    by (auto simp: estimated_def)
  from assms(2) obtain ps p where ps: "sp k = Some ps" "p \<in> set ps" "d \<in> set (dependencies p)" "cache d = None"
    by (auto simp: dep_edge_def)
  from getCostedPaths_Inr[OF g] ps(1) obtain m where n: "n = Suc m"
    and l: "list_all2 (\<lambda>p cp. path cp = p \<and> getCost m sp st cache p = Some (Inr (cost cp))) ps cps"
    by auto
  from l ps(2) obtain c where "getCost m sp st cache p = Some (Inr c)"
    by (induction rule: list_all2_induct) auto
  then obtain r where "sumDeps (getCostedPaths m sp st cache) cache (dependencies p) 0 = Some (Inr r)"
    by (auto simp: getCost_def getCostWith_def split: option.splits sum.splits)
  from sumDeps_Inr[OF this] ps(3,4) have "estimated m sp st cache d"
    by (auto simp: estimated_def)
  with n show ?thesis by auto
qed

lemma estimated_trancl:
  assumes "(k, j) \<in> (dep_edge sp cache)\<^sup>+" and "estimated n sp st cache k"
  shows "\<exists>m<n. estimated m sp st cache j"
  using assms
proof (induction arbitrary: n rule: trancl_induct)
  case (base d)
  then show ?case by (rule estimated_edge[rotated])
next
  case (step d e)
  from step.IH[OF step.prems] obtain m where m: "m < n" "estimated m sp st cache d" by blast
  from estimated_edge[OF m(2) step.hyps(2)] m(1) show ?case
    using less_trans by blast
qed

lemma estimated_acyclic:
  "estimated n sp st cache k \<Longrightarrow> (k, k) \<notin> (dep_edge sp cache)\<^sup>+"
proof (induction n arbitrary: k rule: less_induct)
  case (less n)
  show ?case
  proof
    assume c: "(k, k) \<in> (dep_edge sp cache)\<^sup>+"
    from estimated_trancl[OF c less.prems] obtain m where "m < n" "estimated m sp st cache k" by blast
    from less.IH[OF this] c show False by simp
  qed
qed

lemma map_le_None: "cache \<subseteq>\<^sub>m cache' \<Longrightarrow> cache' d = None \<Longrightarrow> cache d = None"
  by (cases "cache d") (auto simp: map_le_def dom_def)

lemma dep_edge_mono: "cache \<subseteq>\<^sub>m cache' \<Longrightarrow> dep_edge sp cache' \<subseteq> dep_edge sp cache"
  unfolding dep_edge_def using map_le_None by fastforce

section \<open>What a call of \<open>resolve\<close> changes\<close>

lemma extD:
  assumes "ext c s s'"
  shows "length (promises s) \<le> length (promises s')"
    and "\<And>q. q < length (promises s) \<Longrightarrow> promises s' ! q = promises s ! q"
    and "\<And>q. q < length (promises s') \<Longrightarrow> length (promises s) \<le> q \<Longrightarrow> fresh_for c s (promises s' ! q)"
    and "spec s' = spec s" and "stats s' = stats s" and "emitted s' = emitted s" and "now s' = now s"
    and "length (caches s') = length (caches s)"
    and "\<And>c'. c' \<noteq> c \<Longrightarrow> cache_of s' c' = cache_of s c'"
    and "cache_of s c \<subseteq>\<^sub>m cache_of s' c"
    and "set (attempts s) \<subseteq> set (attempts s')"
    and "\<And>a. a \<in> set (attempts s') \<Longrightarrow> a \<notin> set (attempts s) \<Longrightarrow>
           fst a = c \<and> (\<exists>k. fst (snd a) = Some k \<and> cache_of s c k = None)"
  using assms unfolding ext_def by simp_all

lemma extI:
  assumes "length (promises s) \<le> length (promises s')"
    and "\<And>q. q < length (promises s) \<Longrightarrow> promises s' ! q = promises s ! q"
    and "\<And>q. q < length (promises s') \<Longrightarrow> length (promises s) \<le> q \<Longrightarrow> fresh_for c s (promises s' ! q)"
    and "spec s' = spec s" and "stats s' = stats s" and "emitted s' = emitted s" and "now s' = now s"
    and "length (caches s') = length (caches s)"
    and "\<And>c'. c' \<noteq> c \<Longrightarrow> cache_of s' c' = cache_of s c'"
    and "cache_of s c \<subseteq>\<^sub>m cache_of s' c"
    and "set (attempts s) \<subseteq> set (attempts s')"
    and "\<And>a. a \<in> set (attempts s') \<Longrightarrow> a \<notin> set (attempts s) \<Longrightarrow>
           fst a = c \<and> (\<exists>k. fst (snd a) = Some k \<and> cache_of s c k = None)"
  shows "ext c s s'"
  unfolding ext_def using assms by simp

lemma ext_refl: "ext c s s"
  by (rule extI) simp_all

lemma fresh_for_mono:
  assumes "cache_of s c \<subseteq>\<^sub>m cache_of s1 c" and "fresh_for c s1 pr"
  shows "fresh_for c s pr"
  unfolding fresh_for_def
proof (intro conjI allI impI)
  fix x c' k assume "shape_of (origin pr) = SGuard x c' k"
  with assms(2) have "c' = c" "cache_of s1 c k = None" by (simp_all add: fresh_for_def)
  with map_le_None[OF assms(1)] show "c' = c" "cache_of s c k = None" by simp_all
next
  fix x c' k p assume "shape_of (origin pr) = SLink x c' k p"
  with assms(2) have "c' = c" "cache_of s1 c k = None" by (simp_all add: fresh_for_def)
  with map_le_None[OF assms(1)] show "c' = c" "cache_of s c k = None" by simp_all
qed

lemma ext_trans:
  assumes "ext c s s1" and "ext c s1 s2"
  shows "ext c s s2"
proof (rule extI)
  note a = extD[OF assms(1)] and b = extD[OF assms(2)]
  show "length (promises s) \<le> length (promises s2)" using a(1) b(1) by simp
  show "promises s2 ! q = promises s ! q" if "q < length (promises s)" for q
    using that a(1) a(2)[of q] b(2)[of q] by simp
  show "fresh_for c s (promises s2 ! q)" if "q < length (promises s2)" "length (promises s) \<le> q" for q
  proof (cases "q < length (promises s1)")
    case True
    with a(3)[of q] b(2)[of q] that show ?thesis by simp
  next
    case False
    with b(3)[of q] that have "fresh_for c s1 (promises s2 ! q)" by simp
    with a(10) show ?thesis by (rule fresh_for_mono)
  qed
  show "spec s2 = spec s" "stats s2 = stats s" "emitted s2 = emitted s" "now s2 = now s"
    "length (caches s2) = length (caches s)"
    using a b by simp_all
  show "cache_of s2 c' = cache_of s c'" if "c' \<noteq> c" for c'
    using that a(9)[of c'] b(9)[of c'] by simp
  show "cache_of s c \<subseteq>\<^sub>m cache_of s2 c" using a(10) b(10) by (rule map_le_trans)
  show "set (attempts s) \<subseteq> set (attempts s2)" using a(11) b(11) by (rule subset_trans)
  show "fst x = c \<and> (\<exists>k. fst (snd x) = Some k \<and> cache_of s c k = None)"
    if "x \<in> set (attempts s2)" "x \<notin> set (attempts s)" for x
  proof (cases "x \<in> set (attempts s1)")
    case True
    with a(12)[of x] that show ?thesis by simp
  next
    case False
    with b(12)[of x] that obtain k where "fst x = c" "fst (snd x) = Some k" "cache_of s1 c k = None"
      by blast
    with map_le_None[OF a(10)] show ?thesis by simp
  qed
qed

lemma ext_grows: "ext c s s' \<Longrightarrow> grows s s'"
  unfolding grows_def using extD(1,2,8,11)[of c s s'] by simp

lemma ext_append:
  assumes "fresh_for c s pr"
  shows "ext c s (s\<lparr>promises := promises s @ [pr]\<rparr>)"
  by (rule extI) (use assms in \<open>simp_all add: nth_append less_Suc_eq\<close>)

lemma fresh_for_plain [simp]:
  "fresh_for c s \<lparr>origin = Made, outcome = out, follows = fl\<rparr>"
  "fresh_for c s \<lparr>origin = Producer, outcome = out, follows = fl\<rparr>"
  "fresh_for c s \<lparr>origin = AllOf ps, outcome = out, follows = fl\<rparr>"
  "fresh_for c s \<lparr>origin = ThenOf x (Some (DepsReady cell ds f)) None, outcome = out, follows = fl\<rparr>"
  "fresh_for c s \<lparr>origin = ThenOf x (Some (EmitTiming nm ds rs cell)) None, outcome = out, follows = fl\<rparr>"
  "fresh_for c s \<lparr>origin = ThenOf x (Some (RecordOk f t)) (Some (RecordErr f)), outcome = out, follows = fl\<rparr>"
  by (simp_all add: fresh_for_def)

lemma ext_frame:
  "promises s' = promises s \<Longrightarrow> caches s' = caches s \<Longrightarrow> attempts s' = attempts s \<Longrightarrow>
   spec s' = spec s \<Longrightarrow> stats s' = stats s \<Longrightarrow> emitted s' = emitted s \<Longrightarrow> now s' = now s \<Longrightarrow>
   ext c s s'"
  by (simp add: ext_def cache_of_def)

lemma ext_execute: "ext c s (snd (execute env f ds s))"
proof -
  let ?s1 = "s\<lparr>calls := calls s @ [(f, ds)]\<rparr>"
  let ?pr = "\<lparr>origin = Producer, outcome = responded (respond env f ds (length (calls s))), follows = None\<rparr>"
  let ?s2 = "?s1\<lparr>promises := promises ?s1 @ [?pr]\<rparr>"
  let ?q = "\<lparr>origin = ThenOf (length (promises s)) (Some (RecordOk f (now s))) (Some (RecordErr f)),
             outcome = Pending, follows = None\<rparr>"
  have "ext c s ?s1" by (rule ext_frame) simp_all
  moreover have "ext c ?s1 ?s2" by (rule ext_append) simp
  moreover have "ext c ?s2 (?s2\<lparr>promises := promises ?s2 @ [?q]\<rparr>)" by (rule ext_append) simp
  ultimately have "ext c s (?s2\<lparr>promises := promises ?s2 @ [?q]\<rparr>)" by (blast intro: ext_trans)
  then show ?thesis
    by (simp add: execute_def Promise_try_def Promise_fromCallback_def alloc_def then_p_def Let_def)
qed

lemma execute_caches [simp]: "caches (snd (execute env f ds s)) = caches s"
  by (simp add: execute_def Promise_try_def Promise_fromCallback_def alloc_def then_p_def Let_def)

lemma execute_bound: "fst (execute env f ds s) < length (promises (snd (execute env f ds s)))"
  by (simp add: execute_def Promise_try_def Promise_fromCallback_def alloc_def then_p_def Let_def)

lemma cache_of_update:
  "cache_of (s\<lparr>caches := (caches s)[c := m]\<rparr>) c' =
     (if c' = c \<and> c < length (caches s) then m else cache_of s c')"
  by (simp add: cache_of_def)

lemma then_p_eq:
  "then_p x ok er s = (length (promises s),
     s\<lparr>promises := promises s @ [\<lparr>origin = ThenOf x ok er, outcome = Pending, follows = None\<rparr>]\<rparr>)"
  by (simp add: then_p_def alloc_def)

text \<open>The end of \<open>resolve\<close>: the new promise of the \<open>catch\<close> becomes the cache entry.\<close>

lemma inv_guard:
  assumes i: "inv s" and x: "x < length (promises s)" and c: "c < length (caches s)"
    and n: "cache_of s c k = None"
  defines "g \<equiv> \<lparr>origin = ThenOf x None (Some (Evict c k)), outcome = Pending, follows = None\<rparr>"
  defines "s' \<equiv> s\<lparr>promises := promises s @ [g],
                   caches := (caches s)[c := (cache_of s c)(k \<mapsto> length (promises s))]\<rparr>"
  shows "inv s'"
proof -
  have co: "cache_of s' c' k' = (if c' = c \<and> k' = k then Some (length (promises s)) else cache_of s c' k')" for c' k'
    using c by (auto simp: s'_def cache_of_def nth_list_update)
  have g: "grows s s'" by (simp add: grows_def s'_def nth_append)
  have "ok_promise s' q" if q: "q < length (promises s')" for q
  proof (cases "q < length (promises s)")
    case True
    with i have "ok_promise s q" by (simp add: inv_def)
    moreover have "promises s' ! q = promises s ! q" using True by (simp add: s'_def nth_append)
    moreover have "cache_of s' c' k' = Some q \<longleftrightarrow> cache_of s c' k' = Some q" for c' k'
      using True n by (simp add: co)
    ultimately show ?thesis using ok_promise_grows[OF _ True g] by blast
  next
    case False
    with q have e: "q = length (promises s)" by (simp add: s'_def)
    have pg: "promises s' ! length (promises s) = g" by (simp add: s'_def)
    have lc: "length (caches s') = length (caches s)" by (simp add: s'_def)
    show ?thesis
      unfolding e using x c co[of c k]
      by (simp add: ok_promise_def guard_ok_def mirrors_def pg lc g_def)
  qed
  moreover have "cache_ok s'"
    unfolding cache_ok_def
  proof (intro allI impI)
    fix c' k' p assume c': "c' < length (caches s')" and e: "(caches s' ! c') k' = Some p"
    from c' have c'': "c' < length (caches s)" by (simp add: s'_def)
    from e c' have e': "cache_of s' c' k' = Some p" by (simp add: cache_of_def)
    show "p < length (promises s') \<and>
       (origin (promises s' ! p) = Made \<and> fulfilled (outcome (promises s' ! p)) \<or>
        (\<exists>x. origin (promises s' ! p) = ThenOf x None (Some (Evict c' k'))))"
    proof (cases "c' = c \<and> k' = k")
      case True
      with e' have "p = length (promises s)" by (simp add: co)
      with True show ?thesis by (simp add: s'_def g_def)
    next
      case False
      with e' have "cache_of s c' k' = Some p" by (simp add: co)
      with c'' have "(caches s ! c') k' = Some p" by (simp add: cache_of_def)
      with i c'' have "p < length (promises s) \<and>
       (origin (promises s ! p) = Made \<and> fulfilled (outcome (promises s ! p)) \<or>
        (\<exists>x. origin (promises s ! p) = ThenOf x None (Some (Evict c' k'))))"
        unfolding inv_def cache_ok_def by blast
      then show ?thesis by (simp add: s'_def nth_append)
    qed
  qed
  moreover have "emits_ok s'"
    using i by (simp add: inv_def emits_ok_def s'_def g_def)
  ultimately show ?thesis by (simp add: inv_def)
qed

lemma reach_mono:
  assumes "ext c s s1"
  shows "reach s1 c k \<subseteq> reach s c k"
proof
  fix j assume "j \<in> reach s1 c k"
  then have n: "cache_of s1 c k = None" and r: "(k, j) \<in> (dep_edge (spec s1) (cache_of s1 c))\<^sup>*"
    by (simp_all add: reach_def)
  note e = extD[OF assms]
  have "dep_edge (spec s1) (cache_of s1 c) \<subseteq> dep_edge (spec s) (cache_of s c)"
    using dep_edge_mono[OF e(10)] e(4) by simp
  from rtrancl_mono[OF this] r have "(k, j) \<in> (dep_edge (spec s) (cache_of s c))\<^sup>*" by blast
  with map_le_None[OF e(10) n] show "j \<in> reach s c k" by (simp add: reach_def)
qed

lemma added_trans: "added c s s2 \<subseteq> added c s s1 \<union> added c s1 s2"
  by (auto simp: added_def)

lemma added_same: "cache_of s' c = cache_of s c \<Longrightarrow> added c s s' = {}"
  by (auto simp: added_def)

lemma added_refl [simp]: "added c s s = {}"
  by (auto simp: added_def)

lemma goodD:
  assumes "good c res" and "inv s" and "c < length (caches s)" and "res k s = Some (r, s')"
  shows "inv s'" and "ext c s s'" and "\<And>p. r = Inr p \<Longrightarrow> p < length (promises s')"
    and "added c s s' \<subseteq> reach s c k"
  using assms unfolding good_def by blast+

lemma resolveAll_good:
  assumes g: "good c res"
  shows "inv s \<Longrightarrow> c < length (caches s) \<Longrightarrow> resolveAll res ds s = Some (r, s') \<Longrightarrow>
         inv s' \<and> ext c s s' \<and> (\<forall>ps. r = Inr ps \<longrightarrow> (\<forall>p\<in>set ps. p < length (promises s'))) \<and>
         added c s s' \<subseteq> (\<Union>d\<in>set ds. reach s c d)"
proof (induction ds arbitrary: s r s')
  case Nil
  then show ?case by (auto simp: ext_refl)
next
  case (Cons d ds)
  from Cons.prems(3) obtain r1 s1 where r1: "res d s = Some (r1, s1)"
    by (auto split: option.splits)
  note h = goodD[OF g Cons.prems(1,2) r1]
  show ?case
  proof (cases r1)
    case (Inl e)
    with Cons.prems(3) r1 have "r = Inl e" "s' = s1" by simp_all
    with h show ?thesis by auto
  next
    case (Inr p)
    with Cons.prems(3) r1 obtain r2 where r2: "resolveAll res ds s1 = Some (r2, s')"
      and r: "r = (case r2 of Inl e \<Rightarrow> Inl e | Inr ps \<Rightarrow> Inr (p # ps))"
      by (auto split: option.splits sum.splits)
    have c1: "c < length (caches s1)" using extD(8)[OF h(2)] Cons.prems(2) by simp
    from Cons.IH[OF h(1) c1 r2] have ih: "inv s'" "ext c s1 s'"
      "\<forall>ps. r2 = Inr ps \<longrightarrow> (\<forall>p\<in>set ps. p < length (promises s'))"
      "added c s1 s' \<subseteq> (\<Union>d\<in>set ds. reach s1 c d)"
      by simp_all
    have p: "p < length (promises s')" using h(3)[OF Inr] extD(1)[OF ih(2)] by simp
    have "added c s s' \<subseteq> reach s c d \<union> (\<Union>d\<in>set ds. reach s1 c d)"
      using added_trans[of c s s' s1] h(4) ih(4) by blast
    also have "\<dots> \<subseteq> (\<Union>d\<in>set (d # ds). reach s c d)"
      using reach_mono[OF h(2)] by auto
    finally have a: "added c s s' \<subseteq> (\<Union>d\<in>set (d # ds). reach s c d)" .
    have b: "\<forall>ps. r = Inr ps \<longrightarrow> (\<forall>p\<in>set ps. p < length (promises s'))"
      using r ih(3) p by (auto split: sum.splits)
    from ih(1) ext_trans[OF h(2) ih(2)] a b show ?thesis by blast
  qed
qed

lemma reach_frame:
  "cache_of s0 c = cache_of s c \<Longrightarrow> spec s0 = spec s \<Longrightarrow> reach s0 c k = reach s c k"
  by (simp add: reach_def)

lemma fetchDependentResultWith_good:
  assumes g: "good c res" and i: "inv s" and c: "c < length (caches s)"
    and f: "fetchDependentResultWith res env c nm ds f s = Some (r, s')"
  defines "s0 \<equiv> s\<lparr>cells := cells s @ [now s], attempts := attempts s @ [(c, nm, f)]\<rparr>"
  shows "inv s'" and "ext c s0 s'" and "\<And>p. r = Inr p \<Longrightarrow> p < length (promises s')"
    and "added c s s' \<subseteq> (\<Union>d\<in>set ds. reach s c d)"
    and "\<And>p. r = Inr p \<Longrightarrow> is_attempt s' p nm ds"
proof -
  have i0: "inv s0" by (rule inv_frame[OF i]) (auto simp: s0_def)
  have c0: "c < length (caches s0)" using c by (simp add: s0_def)
  have co: "cache_of s0 c = cache_of s c" by (simp add: s0_def cache_of_def)
  have sp: "spec s0 = spec s" by (simp add: s0_def)
  have all: "inv s' \<and> ext c s0 s' \<and> (\<forall>p. r = Inr p \<longrightarrow> p < length (promises s') \<and> is_attempt s' p nm ds) \<and>
         added c s0 s' \<subseteq> (\<Union>d\<in>set ds. reach s0 c d)"
  proof (cases "ds = []")
    case True
    obtain task s1 where ex: "execute env f [] s0 = (task, s1)" by (cases "execute env f [] s0")
    from inv_execute[OF i0, of env f "[]"] ex have i1: "inv s1" by simp
    from ext_execute[of c s0 env f "[]"] ex have e1: "ext c s0 s1" by simp
    from execute_bound[of env f "[]" s0] ex have t: "task < length (promises s1)" by simp
    let ?pr = "\<lparr>origin = ThenOf task (Some (EmitTiming nm ds (now s) (length (cells s)))) None,
                outcome = Pending, follows = None\<rparr>"
    from f True ex have r: "r = Inr (length (promises s1))"
      and s': "s' = s1\<lparr>promises := promises s1 @ [?pr]\<rparr>"
      by (simp_all add: fetchDependentResultWith_def Let_def s0_def then_p_eq)
    have i': "inv s'"
      using inv_alloc_event[OF i1 t, of nm ds "now s" "length (cells s)"] by (simp add: then_p_eq s')
    have e': "ext c s1 s'" unfolding s' by (rule ext_append) simp
    have "caches s1 = caches s0" using execute_caches[of env f "[]" s0] ex by simp
    then have "cache_of s' c = cache_of s0 c" by (simp add: s' cache_of_def)
    then have "added c s0 s' = {}" by (rule added_same)
    with i' ext_trans[OF e1 e'] r show ?thesis
      by (simp add: s' is_attempt_def)
  next
    case False
    from f False obtain r1 s1 where ra: "resolveAll res ds s0 = Some (r1, s1)"
      by (auto simp: fetchDependentResultWith_def Let_def s0_def split: option.splits)
    from resolveAll_good[OF g i0 c0 ra] have h: "inv s1" "ext c s0 s1"
      "\<forall>ps. r1 = Inr ps \<longrightarrow> (\<forall>p\<in>set ps. p < length (promises s1))"
      "added c s0 s1 \<subseteq> (\<Union>d\<in>set ds. reach s0 c d)"
      by simp_all
    show ?thesis
    proof (cases r1)
      case (Inl e)
      with f False ra have "r = Inl e" "s' = s1"
        by (simp_all add: fetchDependentResultWith_def Let_def s0_def)
      with h show ?thesis by simp
    next
      case (Inr ps)
      let ?a = "\<lparr>origin = AllOf ps, outcome = (if ps = [] then Fulfilled (Arr []) else Pending), follows = None\<rparr>"
      let ?t = "\<lparr>origin = ThenOf (length (promises s1)) (Some (DepsReady (length (cells s)) ds f)) None,
                outcome = Pending, follows = None\<rparr>"
      let ?e = "\<lparr>origin = ThenOf (Suc (length (promises s1))) (Some (EmitTiming nm ds (now s) (length (cells s)))) None,
                outcome = Pending, follows = None\<rparr>"
      let ?s2 = "s1\<lparr>promises := promises s1 @ [?a]\<rparr>"
      let ?s3 = "?s2\<lparr>promises := promises ?s2 @ [?t]\<rparr>"
      let ?s4 = "?s3\<lparr>promises := promises ?s3 @ [?e]\<rparr>"
      from f False ra Inr have r: "r = Inr (Suc (Suc (length (promises s1))))" and s': "s' = ?s4"
        by (simp_all add: fetchDependentResultWith_def Let_def s0_def then_p_eq Promise_all_def alloc_def)
      from h(3) Inr have b: "\<forall>p\<in>set ps. p < length (promises s1)" by simp
      have i2: "inv ?s2" using inv_alloc_all[OF h(1) b] by (simp add: Promise_all_def alloc_def)
      have i3: "inv ?s3"
        using inv_alloc_task[OF i2, of "length (promises s1)" "length (cells s)" ds f]
        by (simp add: then_p_eq)
      have i4: "inv ?s4"
        using inv_alloc_event[OF i3, of "Suc (length (promises s1))" nm ds "now s" "length (cells s)"]
        by (simp add: then_p_eq)
      have e2: "ext c s1 ?s2" by (rule ext_append) simp
      have e3: "ext c ?s2 ?s3" by (rule ext_append) simp
      have e4: "ext c ?s3 ?s4" by (rule ext_append) simp
      have e: "ext c s0 ?s4" using h(2) e2 e3 e4 by (blast intro: ext_trans)
      have ad: "added c s0 s' \<subseteq> (\<Union>d\<in>set ds. reach s0 c d)"
        using h(4) by (simp add: added_def s')
      have ia: "is_attempt s' (Suc (Suc (length (promises s1)))) nm ds"
        unfolding s' is_attempt_def by (simp add: nth_append)
      have bd: "Suc (Suc (length (promises s1))) < length (promises s')" by (simp add: s')
      from i4 e have "inv s'" "ext c s0 s'" by (simp_all only: s')
      with ad ia bd r show ?thesis by blast
    qed
  qed
  from all show "inv s'" and "ext c s0 s'" by simp_all
  from all show "r = Inr p \<Longrightarrow> p < length (promises s')" for p by simp
  from all show "r = Inr p \<Longrightarrow> is_attempt s' p nm ds" for p by simp
  have "added c s s' = added c s0 s'" by (simp add: added_def co)
  with all reach_frame[OF co sp] show "added c s s' \<subseteq> (\<Union>d\<in>set ds. reach s c d)" by simp
qed

lemma fresh_for_link:
  "cache_of s c k = None \<Longrightarrow>
   fresh_for c s \<lparr>origin = ThenOf x None (Some (NextPath c k p)), outcome = out, follows = fl\<rparr>"
  by (simp add: fresh_for_def)

lemma fresh_for_guard:
  "cache_of s c k = None \<Longrightarrow>
   fresh_for c s \<lparr>origin = ThenOf x None (Some (Evict c k)), outcome = out, follows = fl\<rparr>"
  by (simp add: fresh_for_def)

lemma chainPaths_good:
  "inv s \<Longrightarrow> x < length (promises s) \<Longrightarrow> c < length (caches s) \<Longrightarrow> cache_of s c k = None \<Longrightarrow>
   chainPaths c k cps (x, s) = (y, s') \<Longrightarrow>
   inv s' \<and> ext c s s' \<and> y < length (promises s') \<and> caches s' = caches s"
proof (induction cps arbitrary: x s)
  case Nil
  then show ?case by (simp add: ext_refl)
next
  case (Cons cp cps)
  let ?s1 = "s\<lparr>promises := promises s @
      [\<lparr>origin = ThenOf x None (Some (NextPath c k (path cp))), outcome = Pending, follows = None\<rparr>]\<rparr>"
  have i1: "inv ?s1"
    using inv_alloc_link[OF Cons.prems(1,2,3), of k "path cp"] by (simp add: then_p_eq)
  have e1: "ext c s ?s1" by (rule ext_append) (rule fresh_for_link[OF Cons.prems(4)])
  have n1: "cache_of ?s1 c k = None" using Cons.prems(4) by simp
  have ch: "chainPaths c k cps (length (promises s), ?s1) = (y, s')"
    using Cons.prems(5) by (simp add: then_p_eq)
  from Cons.IH[OF i1 _ _ n1 ch] Cons.prems(3)
  have ih: "inv s'" "ext c ?s1 s'" "y < length (promises s')" "caches s' = caches ?s1" by simp_all
  from ext_trans[OF e1 ih(2)] ih show ?case by simp
qed

lemma sort_key_hd_in: "sort_key f xs = y # ys \<Longrightarrow> y \<in> set xs"
  by (metis list.set_intros(1) set_sort)

lemma reach_dep:
  assumes e: "estimated n (spec s) (stats s) (cache_of s c) k" and n: "cache_of s c k = None"
    and ps: "spec s k = Some ps" and p: "p \<in> set ps"
  shows "(\<Union>d\<in>set (dependencies p). reach s c d) \<subseteq> reach s c k - {k}"
proof
  fix j assume "j \<in> (\<Union>d\<in>set (dependencies p). reach s c d)"
  then obtain d where d: "d \<in> set (dependencies p)" "cache_of s c d = None"
    "(d, j) \<in> (dep_edge (spec s) (cache_of s c))\<^sup>*"
    by (auto simp: reach_def)
  from ps p d(1,2) have "(k, d) \<in> dep_edge (spec s) (cache_of s c)"
    by (auto simp: dep_edge_def)
  with d(3) have t: "(k, j) \<in> (dep_edge (spec s) (cache_of s c))\<^sup>+" by simp
  with estimated_acyclic[OF e] have "j \<noteq> k" by blast
  moreover from t n have "j \<in> reach s c k" by (simp add: reach_def trancl_into_rtrancl)
  ultimately show "j \<in> reach s c k - {k}" by simp
qed

lemma added_None: "k \<notin> added c s s' \<Longrightarrow> cache_of s c k = None \<Longrightarrow> cache_of s' c k = None"
  by (simp add: added_def)

lemma fetchResultWith_good:
  assumes g: "good c res" and i: "inv s" and c: "c < length (caches s)"
    and n: "cache_of s c k = None"
    and f: "fetchResultWith res m env c k s = Some (r, s')"
  shows "inv s' \<and> ext c s s' \<and> (\<forall>p. r = Inr p \<longrightarrow> p < length (promises s')) \<and>
         added c s s' \<subseteq> reach s c k - {k}"
proof (cases "getPrioritizedPaths m (spec s) (stats s) (cache_of s c) k")
  case None
  with f show ?thesis by (simp add: fetchResultWith_def)
next
  case (Some a)
  show ?thesis
  proof (cases a)
    case (Inl e)
    with Some f have "r = Inl e" "s' = s" by (simp_all add: fetchResultWith_def)
    with i show ?thesis by (simp add: ext_refl)
  next
    case (Inr srt)
    show ?thesis
    proof (cases srt)
      case Nil
      with Some Inr f have "r = Inl TypeError" "s' = s" by (simp_all add: fetchResultWith_def)
      with i show ?thesis by (simp add: ext_refl)
    next
      case (Cons cp cps)
      from Some Inr obtain cs where cs: "getCostedPaths m (spec s) (stats s) (cache_of s c) k = Some (Inr cs)"
        and srt: "srt = sort_key cost cs"
        by (auto simp: getPrioritizedPaths_def split: option.splits sum.splits)
      from cs have est: "estimated m (spec s) (stats s) (cache_of s c) k" by (auto simp: estimated_def)
      from getCostedPaths_Inr[OF cs] obtain ps where ps: "spec s k = Some ps"
        and l: "list_all2 (\<lambda>p cp. path cp = p \<and> getCost (m - 1) (spec s) (stats s) (cache_of s c) p = Some (Inr (cost cp))) ps cs"
        by auto
      from srt Cons have "cp \<in> set cs" using sort_key_hd_in[of cost cs cp cps] by simp
      with l have pin: "path cp \<in> set ps"
        by (induction rule: list_all2_induct) auto
      let ?s0 = "s\<lparr>cells := cells s @ [now s], attempts := attempts s @ [(c, Some k, fn (path cp))]\<rparr>"
      have e0: "ext c s ?s0"
      proof (rule extI)
        show "fst a = c \<and> (\<exists>k. fst (snd a) = Some k \<and> cache_of s c k = None)"
          if "a \<in> set (attempts ?s0)" "a \<notin> set (attempts s)" for a
          using that n by auto
        show "set (attempts s) \<subseteq> set (attempts ?s0)" by auto
      qed (simp_all add: cache_of_def)
      from Some Inr Cons f obtain r1 s1 where
        fd: "fetchDependentResultWith res env c (Some k) (dependencies (path cp)) (fn (path cp)) s = Some (r1, s1)"
        by (auto simp: fetchResultWith_def resolvePathWith_def split: option.splits)
      note h = fetchDependentResultWith_good[OF g i c fd]
      have e1: "ext c s s1" using e0 h(2) by (rule ext_trans)
      have a1: "added c s s1 \<subseteq> reach s c k - {k}" using h(4) reach_dep[OF est n ps pin] by blast
      show ?thesis
      proof (cases r1)
        case (Inl e)
        with Some Inr Cons f fd have "r = Inl e" "s' = s1"
          by (simp_all add: fetchResultWith_def resolvePathWith_def)
        with h(1) e1 a1 show ?thesis by blast
      next
        case r1: (Inr first)
        obtain chain s2 where ch: "chainPaths c k cps (first, s1) = (chain, s2)"
          by (cases "chainPaths c k cps (first, s1)")
        with Some Inr Cons f fd r1 have r: "r = Inr chain" "s' = s2"
          by (simp_all add: fetchResultWith_def resolvePathWith_def)
        from a1 have "k \<notin> added c s s1" by blast
        then have n1: "cache_of s1 c k = None" using n by (rule added_None)
        have c1: "c < length (caches s1)" using extD(8)[OF e1] c by simp
        from chainPaths_good[OF h(1) h(3)[OF r1] c1 n1 ch]
        have k: "inv s2" "ext c s1 s2" "chain < length (promises s2)" "caches s2 = caches s1" by simp_all
        have "added c s s2 = added c s s1" using k(4) by (simp add: added_def cache_of_def)
        with a1 have "added c s s2 \<subseteq> reach s c k - {k}" by simp
        with k(1,3) r ext_trans[OF e1 k(2)] show ?thesis by blast
      qed
    qed
  qed
qed

lemma resolve_good: "good c (resolve n env c)"
proof (induction n)
  case 0
  show ?case by (simp add: good_def)
next
  case (Suc n)
  show ?case
    unfolding good_def
  proof (intro allI impI, elim conjE)
    fix k s r s'
    assume i: "inv s" and c: "c < length (caches s)" and res: "resolve (Suc n) env c k s = Some (r, s')"
    show "inv s' \<and> ext c s s' \<and> (\<forall>p. r = Inr p \<longrightarrow> p < length (promises s')) \<and> added c s s' \<subseteq> reach s c k"
    proof (cases "cache_of s c k")
      case (Some p)
      with res have r: "r = Inr p" "s' = s" by simp_all
      from Some c have "(caches s ! c) k = Some p" by (simp add: cache_of_def)
      with i c have "p < length (promises s)" unfolding inv_def cache_ok_def by blast
      with r i show ?thesis by (simp add: ext_refl)
    next
      case None
      show ?thesis
      proof (cases "spec s k = None")
        case True
        let ?pr = "\<lparr>origin = Made, outcome = Rejected (NotDefined k), follows = None\<rparr>"
        from res None True have r: "r = Inr (length (promises s))" "s' = s\<lparr>promises := promises s @ [?pr]\<rparr>"
          by (simp_all add: alloc_def)
        have "inv s'" using inv_alloc_made[OF i, of "Rejected (NotDefined k)"] by (simp add: alloc_def r)
        moreover have "ext c s s'" unfolding r by (rule ext_append) simp
        moreover have "added c s s' = {}" by (rule added_same) (simp add: r)
        ultimately show ?thesis using r by simp
      next
        case False
        with res None obtain r1 s1 where fr: "fetchResultWith (resolve n env c) n env c k s = Some (r1, s1)"
          by (auto split: option.splits)
        from fetchResultWith_good[OF Suc i c None fr]
        have h: "inv s1" "ext c s s1" "\<forall>p. r1 = Inr p \<longrightarrow> p < length (promises s1)"
          "added c s s1 \<subseteq> reach s c k - {k}" by simp_all
        show ?thesis
        proof (cases r1)
          case (Inl e)
          with res None False fr have "r = Inl e" "s' = s1" by simp_all
          with h show ?thesis by blast
        next
          case (Inr p)
          let ?g = "\<lparr>origin = ThenOf p None (Some (Evict c k)), outcome = Pending, follows = None\<rparr>"
          from res None False fr Inr have r: "r = Inr (length (promises s1))"
            and s': "s' = s1\<lparr>promises := promises s1 @ [?g],
                   caches := (caches s1)[c := (cache_of s1 c)(k \<mapsto> length (promises s1))]\<rparr>"
            by (simp_all add: then_p_eq)
          from h(4) have "k \<notin> added c s s1" by blast
          then have n1: "cache_of s1 c k = None" using None by (rule added_None)
          have c1: "c < length (caches s1)" using extD(8)[OF h(2)] c by simp
          from h(3) Inr have p: "p < length (promises s1)" by simp
          have i': "inv s'" unfolding s' by (rule inv_guard[OF h(1) p c1 n1])
          have co: "cache_of s' c' k' = (if c' = c \<and> k' = k then Some (length (promises s1)) else cache_of s1 c' k')" for c' k'
            using c1 by (auto simp: s' cache_of_def nth_list_update)
          have e': "ext c s1 s'"
          proof (rule extI)
            show "cache_of s1 c \<subseteq>\<^sub>m cache_of s' c" using n1 by (auto simp: map_le_def co)
            show "cache_of s' c' = cache_of s1 c'" if "c' \<noteq> c" for c' using that by (simp add: fun_eq_iff co)
            show "fresh_for c s1 (promises s' ! q)" if "q < length (promises s')" "length (promises s1) \<le> q" for q
            proof -
              from that have "q = length (promises s1)" by (simp add: s')
              then show ?thesis using fresh_for_guard[OF n1] by (simp add: s')
            qed
          qed (simp_all add: s' nth_append)
          have ak: "added c s1 s' \<subseteq> {k}" by (auto simp: added_def co)
          have kr: "k \<in> reach s c k" using None by (simp add: reach_def)
          have "added c s s' \<subseteq> reach s c k"
          proof
            fix j assume "j \<in> added c s s'"
            with added_trans[of c s s' s1] have "j \<in> added c s s1 \<or> j \<in> added c s1 s'" by blast
            with h(4) ak kr show "j \<in> reach s c k" by blast
          qed
          moreover have "length (promises s1) < length (promises s')" by (simp add: s')
          ultimately show ?thesis using i' ext_trans[OF h(2) e'] r by simp
        qed
      qed
    qed
  qed
qed

section \<open>Settling a promise\<close>

lemma shape_ofD:
  "shape_of org = SMade \<Longrightarrow> org = Made"
  "shape_of org = SProducer \<Longrightarrow> org = Producer"
  "shape_of org = SAll ps \<Longrightarrow> org = AllOf ps"
  "shape_of org = SGuard x c k \<Longrightarrow> org = ThenOf x None (Some (Evict c k))"
  "shape_of org = SLink x c k p \<Longrightarrow> org = ThenOf x None (Some (NextPath c k p))"
  "shape_of org = STask x f \<Longrightarrow> \<exists>cell ds. org = ThenOf x (Some (DepsReady cell ds f)) None"
  "shape_of org = SEvent x \<Longrightarrow> \<exists>nm ds rs cell. org = ThenOf x (Some (EmitTiming nm ds rs cell)) None"
  "shape_of org = SRecord x f \<Longrightarrow> \<exists>t. org = ThenOf x (Some (RecordOk f t)) (Some (RecordErr f))"
  by (auto simp: shape_of_def split: origin.splits option.splits handler.splits if_splits)

lemma outcome_of_update:
  "q < length (promises s) \<Longrightarrow>
   outcome_of (s\<lparr>promises := (promises s)[q := pr]\<rparr>) r = (if r = q then outcome pr else outcome_of s r)"
  by (simp add: outcome_of_def)

text \<open>One pending promise changes (it is settled, or it starts to follow another promise),
  perhaps together with the caches and the emitted events.\<close>

lemma grows_update:
  assumes q: "q < length (promises s)" and pe: "outcome (promises s ! q) = Pending"
    and P: "promises s' = (promises s)[q := pr]" and O: "origin pr = origin (promises s ! q)"
    and A: "set (attempts s) \<subseteq> set (attempts s')"
    and L: "length (caches s) \<le> length (caches s')"
  shows "grows s s'"
  unfolding grows_def
proof (intro conjI allI impI)
  fix r assume "r < length (promises s)"
  then show "origin (promises s' ! r) = origin (promises s ! r)"
    using P O by (cases "r = q") simp_all
next
  fix r assume "r < length (promises s)" "outcome (promises s ! r) \<noteq> Pending"
  then show "outcome (promises s' ! r) = outcome (promises s ! r)"
    using P pe by (cases "r = q") simp_all
qed (use P A L in simp_all)

lemma inv_update:
  assumes i: "inv s" and q: "q < length (promises s)" and pe: "outcome (promises s ! q) = Pending"
    and P: "promises s' = (promises s)[q := pr]" and O: "origin pr = origin (promises s ! q)"
    and A: "set (attempts s) \<subseteq> set (attempts s')"
    and L: "length (caches s') = length (caches s)"
    and C: "\<And>c k p. c < length (caches s) \<Longrightarrow> p \<noteq> q \<Longrightarrow> cache_of s' c k = Some p \<longleftrightarrow> cache_of s c k = Some p"
    and D: "\<And>c k. cache_of s' c k = Some q \<Longrightarrow> cache_of s c k = Some q"
    and Q: "ok_promise s' q" and E: "emits_ok s'"
  shows "inv s'"
proof -
  have g: "grows s s'"
    unfolding grows_def
  proof (intro conjI allI impI)
    fix r assume "r < length (promises s)"
    then show "origin (promises s' ! r) = origin (promises s ! r)"
      using P O by (cases "r = q") simp_all
  next
    fix r assume "r < length (promises s)" "outcome (promises s ! r) \<noteq> Pending"
    then show "outcome (promises s' ! r) = outcome (promises s ! r)"
      using P pe by (cases "r = q") simp_all
  qed (use P A L in simp_all)
  have "ok_promise s' r" if r: "r < length (promises s')" for r
  proof (cases "r = q")
    case True
    with Q show ?thesis by simp
  next
    case False
    from r P have r': "r < length (promises s)" by simp
    with i have "ok_promise s r" by (simp add: inv_def)
    moreover have "promises s' ! r = promises s ! r" using False P by simp
    ultimately show ?thesis using ok_promise_grows[OF _ r' g] C[OF _ False] by blast
  qed
  moreover have "cache_ok s'"
    unfolding cache_ok_def
  proof (intro allI impI)
    fix c k p assume c: "c < length (caches s')" and e: "(caches s' ! c) k = Some p"
    from c L have c': "c < length (caches s)" by simp
    from e c have "cache_of s' c k = Some p" by (simp add: cache_of_def)
    with C[OF c', of p k] D[of c k] have "cache_of s c k = Some p" by (cases "p = q") auto
    with c' have "(caches s ! c) k = Some p" by (simp add: cache_of_def)
    with i c' have *: "p < length (promises s) \<and>
       (origin (promises s ! p) = Made \<and> fulfilled (outcome (promises s ! p)) \<or>
        (\<exists>x. origin (promises s ! p) = ThenOf x None (Some (Evict c k))))"
      unfolding inv_def cache_ok_def by blast
    show "p < length (promises s') \<and>
       (origin (promises s' ! p) = Made \<and> fulfilled (outcome (promises s' ! p)) \<or>
        (\<exists>x. origin (promises s' ! p) = ThenOf x None (Some (Evict c k))))"
    proof (cases "p = q")
      case True
      with * pe O P q show ?thesis by auto
    next
      case False
      with * P show ?thesis by simp
    qed
  qed
  ultimately show ?thesis using E by (simp add: inv_def)
qed

lemma length_filter_update:
  "i < length xs \<Longrightarrow> \<not> P (xs ! i) \<Longrightarrow>
   length (filter P (xs[i := y])) = length (filter P xs) + (if P y then 1 else 0)"
  by (induction xs arbitrary: i) (auto split: nat.splits simp: nth_Cons')

lemma emits_ok_update:
  assumes "emits_ok s" and "q < length (promises s)" and "outcome (promises s ! q) = Pending"
    and "promises s' = (promises s)[q := pr]"
    and "length (emitted s') = length (emitted s) +
           (if (\<exists>x. shape_of (origin pr) = SEvent x) \<and> fulfilled (outcome pr) then 1 else 0)"
  shows "emits_ok s'"
proof -
  let ?P = "\<lambda>pr. (\<exists>x. shape_of (origin pr) = SEvent x) \<and> fulfilled (outcome pr)"
  have "\<not> ?P (promises s ! q)" using assms(3) by simp
  from length_filter_update[of q "promises s" ?P pr, OF assms(2) this] assms(1,4,5)
  show ?thesis by (simp add: emits_ok_def)
qed

lemma movesI:
  assumes "grows s s'"
    and "\<And>c k p. cache_of s c k = Some p \<Longrightarrow> outcome_of s p \<noteq> Pending \<Longrightarrow> cache_of s' c k = Some p"
    and "\<And>a. a \<in> set (attempts s') \<Longrightarrow> a \<notin> set (attempts s) \<Longrightarrow>
        fst (snd a) = None \<or>
        (\<exists>k. fst (snd a) = Some k \<and>
           (cache_of s (fst a) k = None \<or>
            (\<exists>q<length (promises s). \<exists>x p. shape_of (origin (promises s ! q)) = SLink x (fst a) k p)))"
    and "\<And>q x c k p. q < length (promises s') \<Longrightarrow> length (promises s) \<le> q \<Longrightarrow>
        shape_of (origin (promises s' ! q)) = SLink x c k p \<Longrightarrow> cache_of s c k = None"
  shows "moves s s'"
  unfolding moves_def using assms by simp

lemma ext_moves:
  assumes "ext c s s'"
  shows "moves s s'"
proof (rule movesI)
  note e = extD[OF assms]
  show "grows s s'" using assms by (rule ext_grows)
  show "cache_of s' c' k = Some p" if "cache_of s c' k = Some p" for c' k p
  proof (cases "c' = c")
    case True
    with that e(10) show ?thesis by (auto simp: map_le_def dom_def)
  next
    case False
    with that e(9)[of c'] show ?thesis by simp
  qed
  show "fst (snd a) = None \<or>
        (\<exists>k. fst (snd a) = Some k \<and>
           (cache_of s (fst a) k = None \<or>
            (\<exists>q<length (promises s). \<exists>x p. shape_of (origin (promises s ! q)) = SLink x (fst a) k p)))"
    if "a \<in> set (attempts s')" "a \<notin> set (attempts s)" for a
    using e(12)[OF that] by auto
  show "cache_of s c' k = None"
    if "q < length (promises s')" "length (promises s) \<le> q"
      "shape_of (origin (promises s' ! q)) = SLink x c' k p" for q x c' k p
    using e(3)[OF that(1,2)] that(3) by (simp add: fresh_for_def)
qed

lemma moves_frame:
  assumes "promises s' = promises s" and "caches s' = caches s" and "attempts s' = attempts s"
  shows "moves s s'"
proof (rule movesI)
  have "cache_of s' = cache_of s" using assms by (simp add: cache_of_def fun_eq_iff)
  then show "cache_of s' c k = Some p" if "cache_of s c k = Some p" for c k p using that by simp
qed (use assms in \<open>simp_all add: grows_def\<close>)

lemma settle_eq:
  "settle q out s = s\<lparr>promises := (promises s)[q := (promises s ! q)\<lparr>outcome := out\<rparr>]\<rparr>"
  by (simp add: settle_def)

lemma cache_of_settle [simp]: "cache_of (settle q out s) = cache_of s"
  by (simp add: settle_def)

lemma moves_settle:
  assumes "q < length (promises s)" and "outcome (promises s ! q) = Pending"
  shows "moves s (settle q out s)"
proof (rule movesI)
  show "grows s (settle q out s)"
    unfolding grows_def settle_eq using assms by (auto simp: nth_list_update)
qed (simp_all add: settle_eq)

text \<open>Settling a promise with an outcome, when the promise is right afterwards.\<close>

lemma inv_settle:
  assumes "inv s" and "q < length (promises s)" and "outcome (promises s ! q) = Pending"
    and "ok_promise (settle q out s) q"
    and "\<not> ((\<exists>x. shape_of (origin (promises s ! q)) = SEvent x) \<and> fulfilled out)"
  shows "inv (settle q out s)"
proof (rule inv_update[OF assms(1,2,3)])
  show "promises (settle q out s) = (promises s)[q := (promises s ! q)\<lparr>outcome := out\<rparr>]"
    by (simp add: settle_eq)
  show "emits_ok (settle q out s)"
    by (rule emits_ok_update[where q = q and s = s and pr = "(promises s ! q)\<lparr>outcome := out\<rparr>"])
       (use assms in \<open>simp_all add: inv_def settle_eq\<close>)
qed (use assms in \<open>simp_all add: settle_eq\<close>)

lemma outcome_of_settle:
  "q < length (promises s) \<Longrightarrow> outcome_of (settle q out s) r = (if r = q then out else outcome_of s r)"
  by (simp add: settle_eq outcome_of_update)

lemma mirrors_settle:
  "q < length (promises s) \<Longrightarrow> x < q \<Longrightarrow> follows (promises s ! q) = None \<Longrightarrow> out = outcome_of s x \<Longrightarrow>
   mirrors (settle q out s) q x"
  by (simp add: mirrors_def outcome_of_settle) (simp add: settle_eq)

section \<open>The invariant is kept by every event\<close>

lemma fire_then:
  assumes "q < length (promises s)" and "outcome (promises s ! q) = Pending"
    and "follows (promises s ! q) = None" and "origin (promises s ! q) = ThenOf p ok er"
  shows "fire n env q s =
     (if outcome_of s p = Pending then None
      else (case (case outcome_of s p of Fulfilled v \<Rightarrow> ok | _ \<Rightarrow> er) of
              None \<Rightarrow> Some (settle q (outcome_of s p) s)
            | Some h \<Rightarrow>
                (case handle n env h (outcome_of s p) s of
                   None \<Rightarrow> None
                 | Some (Value v, s1) \<Rightarrow> Some (settle q (Fulfilled v) s1)
                 | Some (Raise e, s1) \<Rightarrow> Some (settle q (Rejected e) s1)
                 | Some (Chain r, s1) \<Rightarrow> Some (follow q r s1))))"
  using assms by (simp add: fire_def Let_def)

lemma ok_promise_shape:
  "ok_promise s q \<Longrightarrow> shape_of (origin (promises s ! q)) = SGuard x c k \<Longrightarrow> x < q \<and> guard_ok s q x c k"
  "ok_promise s q \<Longrightarrow> shape_of (origin (promises s ! q)) = SLink x c k p \<Longrightarrow> x < q \<and> link_ok s q x c k p"
  "ok_promise s q \<Longrightarrow> shape_of (origin (promises s ! q)) = STask x f \<Longrightarrow> x < q \<and> task_ok s q x f"
  "ok_promise s q \<Longrightarrow> shape_of (origin (promises s ! q)) = SEvent x \<Longrightarrow> x < q \<and> mirrors s q x"
  "ok_promise s q \<Longrightarrow> shape_of (origin (promises s ! q)) = SRecord x f \<Longrightarrow>
     x < q \<and> mirrors s q x \<and> origin (promises s ! x) = Producer"
  "ok_promise s q \<Longrightarrow> shape_of (origin (promises s ! q)) = SAll ps \<Longrightarrow> all_ok s q ps"
  by (simp_all add: ok_promise_def)

lemma origin_settle [simp]:
  "q < length (promises s) \<Longrightarrow> origin (promises (settle q out s) ! r) = origin (promises s ! r)"
  by (cases "r = q") (simp_all add: settle_eq)

lemma follows_settle [simp]:
  "q < length (promises s) \<Longrightarrow> follows (promises (settle q out s) ! r) = follows (promises s ! r)"
  by (cases "r = q") (simp_all add: settle_eq)

lemma outcome_settle [simp]:
  "q < length (promises s) \<Longrightarrow> outcome (promises (settle q out s) ! q) = out"
  by (simp add: settle_eq)

lemma other_settle [simp]:
  "caches (settle q out s) = caches s" "attempts (settle q out s) = attempts s"
  "length (promises (settle q out s)) = length (promises s)"
  "emitted (settle q out s) = emitted s" "stats (settle q out s) = stats s"
  by (simp_all add: settle_eq)

lemma fire_guard_inv:
  assumes i: "inv s" and q: "q < length (promises s)" and pe: "outcome (promises s ! q) = Pending"
    and sh: "shape_of (origin (promises s ! q)) = SGuard x c k"
    and f: "fire n env q s = Some s'"
  shows "inv s' \<and> moves s s'"
proof -
  from i q have ok: "ok_promise s q" by (simp add: inv_def)
  from ok_promise_shape(1)[OF ok sh] have x: "x < q" and c: "c < length (caches s)"
    and fl: "follows (promises s ! q) = None" and ca: "cache_of s c k = Some q"
    using pe by (simp_all add: guard_ok_def mirrors_def)
  note org = shape_ofD(4)[OF sh]
  from f have ne: "outcome_of s x \<noteq> Pending"
    by (simp add: fire_then[OF q pe fl org] split: if_splits)
  show ?thesis
  proof (cases "outcome_of s x")
    case Pending
    with ne show ?thesis by simp
  next
    case (Fulfilled v)
    with f have s': "s' = settle q (Fulfilled v) s" by (simp add: fire_then[OF q pe fl org])
    have "ok_promise (settle q (Fulfilled v) s) q"
      using q x c fl Fulfilled sh mirrors_settle[OF q x fl, of "Fulfilled v"]
      by (simp add: ok_promise_def guard_ok_def)
    from inv_settle[OF i q pe this] sh moves_settle[OF q pe] s' show ?thesis by simp
  next
    case (Rejected e)
    let ?s1 = "s\<lparr>caches := (caches s)[c := (cache_of s c)(k := None)]\<rparr>"
    from f Rejected have s': "s' = settle q (Rejected e) ?s1"
      by (simp add: fire_then[OF q pe fl org])
    have co: "cache_of s' c' k' = (if c' = c \<and> k' = k then None else cache_of s c' k')" for c' k'
      using c by (auto simp: s' settle_eq cache_of_def nth_list_update)
    have pr: "promises s' = (promises s)[q := (promises s ! q)\<lparr>outcome := Rejected e\<rparr>]"
      by (simp add: s' settle_eq)
    have oc: "outcome_of s' x = Rejected e"
      using Rejected x q by (simp add: outcome_of_def pr)
    have i': "inv s'"
    proof (rule inv_update[OF i q pe pr])
      show "ok_promise s' q"
        using q x c sh fl oc by (simp add: ok_promise_def guard_ok_def mirrors_def pr co) (simp add: s')
      show "emits_ok s'"
        by (rule emits_ok_update[OF _ q pe pr]) (use i sh in \<open>simp_all add: inv_def s'\<close>)
      show "cache_of s' c' k' = Some p \<longleftrightarrow> cache_of s c' k' = Some p" if "p \<noteq> q" for c' k' p
        using that ca by (auto simp: co)
      show "cache_of s c' k' = Some q" if "cache_of s' c' k' = Some q" for c' k'
        using that by (simp add: co split: if_splits)
    qed (simp_all add: s')
    have "moves s s'"
    proof (rule movesI)
      show "grows s s'" by (rule grows_update[OF q pe pr]) (simp_all add: s')
      show "cache_of s' c' k' = Some p" if "cache_of s c' k' = Some p" "outcome_of s p \<noteq> Pending" for c' k' p
        using that ca pe q by (auto simp: co outcome_of_def)
    qed (simp_all add: s')
    with i' show ?thesis by simp
  qed
qed

lemma fire_plain_inv:
  assumes i: "inv s" and q: "q < length (promises s)" and pe: "outcome (promises s ! q) = Pending"
    and ok: "ok_promise (settle q out s) q"
    and ev: "\<not> ((\<exists>x. shape_of (origin (promises s ! q)) = SEvent x) \<and> fulfilled out)"
    and s': "s' = settle q out s"
  shows "inv s' \<and> moves s s'"
  using inv_settle[OF i q pe ok ev] moves_settle[OF q pe] s' by simp

lemma fire_event_inv:
  assumes i: "inv s" and q: "q < length (promises s)" and pe: "outcome (promises s ! q) = Pending"
    and sh: "shape_of (origin (promises s ! q)) = SEvent x"
    and f: "fire n env q s = Some s'"
  shows "inv s' \<and> moves s s'"
proof -
  from i q have ok: "ok_promise s q" by (simp add: inv_def)
  from ok_promise_shape(4)[OF ok sh] have x: "x < q" and fl: "follows (promises s ! q) = None"
    by (simp_all add: mirrors_def)
  from shape_ofD(7)[OF sh] obtain nm ds rs cell where
    org: "origin (promises s ! q) = ThenOf x (Some (EmitTiming nm ds rs cell)) None" by blast
  from f have ne: "outcome_of s x \<noteq> Pending"
    by (simp add: fire_then[OF q pe fl org] split: if_splits)
  show ?thesis
  proof (cases "outcome_of s x")
    case Pending
    with ne show ?thesis by simp
  next
    case (Rejected e)
    with f have s': "s' = settle q (Rejected e) s" by (simp add: fire_then[OF q pe fl org])
    have "ok_promise (settle q (Rejected e) s) q"
      using q x sh mirrors_settle[OF q x fl, of "Rejected e"] Rejected by (simp add: ok_promise_def)
    from fire_plain_inv[OF i q pe this _ s'] show ?thesis by simp
  next
    case (Fulfilled v)
    define ev where "ev = \<lparr>name = nm, deps = ds, requestStart = rs,
        waitDuration = (if cell < length (cells s) then cells s ! cell else rs) - rs,
        fetchStart = (if cell < length (cells s) then cells s ! cell else rs),
        fetchDuration = now s - (if cell < length (cells s) then cells s ! cell else rs),
        totalDuration = now s - rs\<rparr>"
    let ?s1 = "s\<lparr>emitted := emitted s @ [ev]\<rparr>"
    from f Fulfilled have s': "s' = settle q (Fulfilled v) ?s1"
      by (simp add: fire_then[OF q pe fl org] Let_def ev_def)
    have pr: "promises s' = (promises s)[q := (promises s ! q)\<lparr>outcome := Fulfilled v\<rparr>]"
      by (simp add: s' settle_eq)
    have co: "cache_of s' = cache_of s" by (simp add: s' settle_eq cache_of_def fun_eq_iff)
    have oc: "outcome_of s' x = Fulfilled v"
      using Fulfilled x q by (simp add: outcome_of_def pr)
    have i': "inv s'"
    proof (rule inv_update[OF i q pe pr])
      show "ok_promise s' q"
        using q x sh fl oc by (simp add: ok_promise_def mirrors_def pr)
      show "emits_ok s'"
        by (rule emits_ok_update[OF _ q pe pr]) (use i sh in \<open>simp_all add: inv_def s' settle_eq\<close>)
      show "cache_of s' c' k' = Some p \<longleftrightarrow> cache_of s c' k' = Some p" for c' k' p
        by (simp add: co)
      show "cache_of s c' k' = Some q" if "cache_of s' c' k' = Some q" for c' k'
        using that by (simp add: co)
    qed (simp_all add: s')
    have "moves s s'"
    proof (rule movesI)
      show "grows s s'" by (rule grows_update[OF q pe pr]) (simp_all add: s')
      show "cache_of s' c' k' = Some p" if "cache_of s c' k' = Some p" for c' k' p
        using that by (simp add: co)
    qed (simp_all add: s')
    with i' show ?thesis by simp
  qed
qed

lemma fire_record_inv:
  assumes i: "inv s" and q: "q < length (promises s)" and pe: "outcome (promises s ! q) = Pending"
    and sh: "shape_of (origin (promises s ! q)) = SRecord x g"
    and f: "fire n env q s = Some s'"
  shows "inv s' \<and> moves s s'"
proof -
  from i q have ok: "ok_promise s q" by (simp add: inv_def)
  from ok_promise_shape(5)[OF ok sh] have x: "x < q" and fl: "follows (promises s ! q) = None"
    and px: "origin (promises s ! x) = Producer"
    by (simp_all add: mirrors_def)
  from shape_ofD(8)[OF sh] obtain t where
    org: "origin (promises s ! q) = ThenOf x (Some (RecordOk g t)) (Some (RecordErr g))" by blast
  from f have ne: "outcome_of s x \<noteq> Pending"
    by (simp add: fire_then[OF q pe fl org] split: if_splits)
  obtain st where s': "s' = settle q (outcome_of s x) (s\<lparr>stats := st\<rparr>)"
    using f ne by (cases "outcome_of s x") (auto simp: fire_then[OF q pe fl org])
  let ?s1 = "s\<lparr>stats := st\<rparr>"
  have i1: "inv ?s1" by (rule inv_frame[OF i]) simp_all
  have m1: "moves s ?s1" by (rule moves_frame) simp_all
  have q1: "q < length (promises ?s1)" "outcome (promises ?s1 ! q) = Pending" using q pe by simp_all
  have oc: "outcome_of ?s1 x = outcome_of s x" by (simp add: outcome_of_def)
  have "ok_promise (settle q (outcome_of s x) ?s1) q"
    using q x sh px mirrors_settle[OF q1(1) x, of "outcome_of s x"] fl oc
    by (simp add: ok_promise_def settle_eq nth_list_update)
  from fire_plain_inv[OF i1 q1 this _ s'] sh have "inv s'" "moves ?s1 s'" by simp_all
  moreover have "moves s s'"
  proof (rule movesI)
    show "grows s s'"
      by (rule grows_update[OF q pe, where pr = "(promises s ! q)\<lparr>outcome := outcome_of s x\<rparr>"])
         (simp_all add: s' settle_eq)
    have "cache_of s' = cache_of s" by (simp add: s' settle_eq cache_of_def fun_eq_iff)
    then show "cache_of s' c' k' = Some p" if "cache_of s c' k' = Some p" for c' k' p
      using that by simp
  qed (simp_all add: s')
  ultimately show ?thesis by simp
qed

lemma allOutcome_Fulfilled:
  assumes "allOutcome outs = Fulfilled v"
  shows "(\<forall>out\<in>set outs. fulfilled out) \<and> v = Arr (map as_val outs)"
proof -
  let ?R = "\<lambda>out. case out of Rejected e \<Rightarrow> True | _ \<Rightarrow> False"
  from assms have n: "filter ?R outs = []" and p: "Pending \<notin> set outs" and v: "v = Arr (map as_val outs)"
    by (auto split: list.splits if_splits dest: filter_eq_ConsD)
  have "fulfilled out" if "out \<in> set outs" for out
  proof (cases out)
    case Pending
    with that p show ?thesis by simp
  next
    case (Fulfilled w)
    then show ?thesis by simp
  next
    case (Rejected e)
    with that have "out \<in> set (filter ?R outs)" by simp
    with n show ?thesis by simp
  qed
  with v show ?thesis by simp
qed

lemma allOutcome_Rejected:
  assumes "allOutcome outs = Rejected e"
  shows "Rejected e \<in> set outs"
proof -
  let ?R = "\<lambda>out. case out of Rejected e \<Rightarrow> True | _ \<Rightarrow> False"
  from assms obtain rs where "filter ?R outs = Rejected e # rs"
    by (auto split: list.splits if_splits)
  then have "Rejected e \<in> set (filter ?R outs)" by simp
  then show ?thesis by simp
qed

lemma fire_all_inv:
  assumes i: "inv s" and q: "q < length (promises s)" and pe: "outcome (promises s ! q) = Pending"
    and sh: "shape_of (origin (promises s ! q)) = SAll ps"
    and f: "fire n env q s = Some s'"
  shows "inv s' \<and> moves s s'"
proof -
  from i q have ok: "ok_promise s q" by (simp add: inv_def)
  from ok_promise_shape(6)[OF ok sh] have fl: "follows (promises s ! q) = None"
    and lt: "\<forall>p\<in>set ps. p < q"
    by (simp_all add: all_ok_def)
  note org = shape_ofD(3)[OF sh]
  define out where "out = allOutcome (map (outcome_of s) ps)"
  from f have ne: "out \<noteq> Pending" and s': "s' = settle q out s"
    by (simp_all add: fire_def q pe fl org Let_def out_def split: if_splits)
  have same: "outcome_of (settle q out s) p = outcome_of s p" if "p \<in> set ps" for p
    using that lt q by (auto simp: outcome_of_settle)
  have "all_ok (settle q out s) q ps"
    unfolding all_ok_def
  proof (intro conjI allI impI)
    show "follows (promises (settle q out s) ! q) = None" using q fl by simp
    show "\<forall>p\<in>set ps. p < q" by (rule lt)
  next
    fix v assume "outcome (promises (settle q out s) ! q) = Fulfilled v"
    with q have "allOutcome (map (outcome_of s) ps) = Fulfilled v" by (simp add: out_def)
    from allOutcome_Fulfilled[OF this]
    have a: "\<forall>p\<in>set ps. fulfilled (outcome_of s p)" and v: "v = Arr (map as_val (map (outcome_of s) ps))"
      by simp_all
    from a same show "\<forall>p\<in>set ps. fulfilled (outcome_of (settle q out s) p)" by simp
    from v same show "v = Arr (map (\<lambda>p. as_val (outcome_of (settle q out s) p)) ps)" by simp
  next
    fix e assume "outcome (promises (settle q out s) ! q) = Rejected e"
    with q have "allOutcome (map (outcome_of s) ps) = Rejected e" by (simp add: out_def)
    from allOutcome_Rejected[OF this] obtain p where "p \<in> set ps" "outcome_of s p = Rejected e" by auto
    with same show "\<exists>p\<in>set ps. outcome_of (settle q out s) p = Rejected e" by auto
  qed
  then have "ok_promise (settle q out s) q" using q sh by (simp add: ok_promise_def)
  from fire_plain_inv[OF i q pe this _ s'] sh show ?thesis by simp
qed

lemma is_attempt_settle [simp]:
  "q < length (promises s) \<Longrightarrow> is_attempt (settle q out s) r nm ds = is_attempt s r nm ds"
  by (simp add: is_attempt_def)

lemma is_record_settle [simp]:
  "q < length (promises s) \<Longrightarrow> is_record (settle q out s) r f = is_record s r f"
  by (simp add: is_record_def)

lemma fire_follow_inv:
  assumes i: "inv s" and q: "q < length (promises s)" and pe: "outcome (promises s ! q) = Pending"
    and fl: "follows (promises s ! q) = Some r"
    and f: "fire n env q s = Some s'"
  shows "inv s' \<and> moves s s'"
proof -
  from i q have ok: "ok_promise s q" by (simp add: inv_def)
  from f have ne: "outcome_of s r \<noteq> Pending" and s': "s' = settle q (outcome_of s r) s"
    by (simp_all add: fire_def q pe fl split: if_splits)
  from ne pe q have rq: "r \<noteq> q" by (auto simp: outcome_of_def)
  have or: "outcome_of (settle q (outcome_of s r) s) r = outcome_of s r"
    using q rq by (simp add: outcome_of_settle)
  have "ok_promise (settle q (outcome_of s r) s) q"
  proof (cases "shape_of (origin (promises s ! q))")
    case (SLink x c k p)
    from ok_promise_shape(2)[OF ok SLink] have x: "x < q" and l: "link_ok s q x c k p" by simp_all
    have ox: "outcome_of (settle q (outcome_of s r) s) x = outcome_of s x"
      using q x by (simp add: outcome_of_settle)
    have "link_ok (settle q (outcome_of s r) s) q x c k p"
      using l fl q or ox unfolding link_ok_def by simp
    with x SLink q show ?thesis by (simp add: ok_promise_def)
  next
    case (STask x g)
    from ok_promise_shape(3)[OF ok STask] have x: "x < q" and l: "task_ok s q x g" by simp_all
    have ox: "outcome_of (settle q (outcome_of s r) s) x = outcome_of s x"
      using q x by (simp add: outcome_of_settle)
    have "task_ok (settle q (outcome_of s r) s) q x g"
      using l fl q or ox unfolding task_ok_def by simp
    with x STask q show ?thesis by (simp add: ok_promise_def)
  qed (use ok fl in \<open>simp_all add: ok_promise_def all_ok_def guard_ok_def mirrors_def\<close>)
  moreover have "\<not> ((\<exists>x. shape_of (origin (promises s ! q)) = SEvent x) \<and> fulfilled (outcome_of s r))"
    using ok fl by (auto simp: ok_promise_def mirrors_def)
  ultimately show ?thesis using fire_plain_inv[OF i q pe _ _ s'] by simp
qed

lemma execute_eq:
  "execute env f ds s =
     (Suc (length (promises s)),
      s\<lparr>calls := calls s @ [(f, ds)],
        promises := promises s @
          [\<lparr>origin = Producer, outcome = responded (respond env f ds (length (calls s))), follows = None\<rparr>,
           \<lparr>origin = ThenOf (length (promises s)) (Some (RecordOk f (now s))) (Some (RecordErr f)),
             outcome = Pending, follows = None\<rparr>]\<rparr>)"
  by (simp add: execute_def Promise_try_def Promise_fromCallback_def alloc_def then_p_def Let_def)

lemma follow_eq:
  "follow q r s = s\<lparr>promises := (promises s)[q := (promises s ! q)\<lparr>follows := Some r\<rparr>]\<rparr>"
  by (simp add: follow_def)

lemma fire_task_inv:
  assumes i: "inv s" and q: "q < length (promises s)" and pe: "outcome (promises s ! q) = Pending"
    and sh: "shape_of (origin (promises s ! q)) = STask x g"
    and fl: "follows (promises s ! q) = None"
    and f: "fire n env q s = Some s'"
  shows "inv s' \<and> moves s s'"
proof -
  from i q have ok: "ok_promise s q" by (simp add: inv_def)
  from ok_promise_shape(3)[OF ok sh] have x: "x < q" by simp
  from shape_ofD(6)[OF sh] obtain cell ds where
    org: "origin (promises s ! q) = ThenOf x (Some (DepsReady cell ds g)) None" by blast
  from f have ne: "outcome_of s x \<noteq> Pending"
    by (simp add: fire_then[OF q pe fl org] split: if_splits)
  show ?thesis
  proof (cases "outcome_of s x")
    case Pending
    with ne show ?thesis by simp
  next
    case (Rejected e)
    with f have s': "s' = settle q (Rejected e) s" by (simp add: fire_then[OF q pe fl org])
    have ox: "outcome_of (settle q (Rejected e) s) x = Rejected e"
      using q x Rejected by (simp add: outcome_of_settle)
    have "task_ok (settle q (Rejected e) s) q x g"
      using q fl ox by (simp add: task_ok_def)
    then have "ok_promise (settle q (Rejected e) s) q" using q x sh by (simp add: ok_promise_def)
    from fire_plain_inv[OF i q pe this _ s'] sh show ?thesis by simp
  next
    case (Fulfilled v)
    define A where "A = \<lparr>origin = Producer,
       outcome = responded (respond env g (depsObj ds (elements v)) (length (calls s))), follows = None\<rparr>"
    define B where "B = \<lparr>origin = ThenOf (length (promises s)) (Some (RecordOk g (now s))) (Some (RecordErr g)),
             outcome = Pending, follows = None\<rparr>"
    define s1 where "s1 = s\<lparr>cells := (cells s)[cell := now s],
        calls := calls s @ [(g, depsObj ds (elements v))], promises := promises s @ [A, B]\<rparr>"
    have ex: "execute env g (depsObj ds (elements v)) (s\<lparr>cells := (cells s)[cell := now s]\<rparr>)
        = (Suc (length (promises s)), s1)"
      by (simp add: execute_eq s1_def A_def B_def)
    from f Fulfilled have s': "s' = follow q (Suc (length (promises s))) s1"
      by (simp add: fire_then[OF q pe fl org] ex)
    have i0: "inv (s\<lparr>cells := (cells s)[cell := now s]\<rparr>)" by (rule inv_frame[OF i]) simp_all
    from inv_execute[OF i0, of env g "depsObj ds (elements v)"] ex have i1: "inv s1" by simp
    have q1: "q < length (promises s1)" using q by (simp add: s1_def)
    have pq: "promises s1 ! q = promises s ! q" using q by (simp add: s1_def nth_append)
    have pe1: "outcome (promises s1 ! q) = Pending" using pe pq by simp
    let ?pr = "(promises s1 ! q)\<lparr>follows := Some (Suc (length (promises s)))\<rparr>"
    have pr: "promises s' = (promises s1)[q := ?pr]" by (simp add: s' follow_eq)
    have ca: "caches s' = caches s" by (simp add: s' follow_eq s1_def)
    have co: "cache_of s' = cache_of s" "cache_of s1 = cache_of s"
      by (simp_all add: s' follow_eq s1_def cache_of_def fun_eq_iff)
    have ox: "outcome_of s' x = Fulfilled v"
      using Fulfilled x q by (simp add: outcome_of_def pr s1_def nth_append)
    have ir: "is_record s' (Suc (length (promises s))) g"
      using q by (simp add: is_record_def pr s1_def nth_append B_def)
    have i': "inv s'"
    proof (rule inv_update[OF i1 q1 pe1 pr])
      show "ok_promise s' q"
        using q1 x sh pq ox ir pe by (simp add: ok_promise_def task_ok_def pr)
      show "emits_ok s'"
        by (rule emits_ok_update[OF _ q1 pe1 pr]) (use i1 pe1 in \<open>simp_all add: inv_def s' follow_eq\<close>)
    qed (simp_all add: co, simp_all add: s' follow_eq)
    have "moves s s'"
    proof (rule movesI)
      show "grows s s'"
        unfolding grows_def
      proof (intro conjI allI impI)
        fix r assume r: "r < length (promises s)"
        then show "origin (promises s' ! r) = origin (promises s ! r)"
          by (cases "r = q") (simp_all add: pr s1_def nth_append)
        assume "outcome (promises s ! r) \<noteq> Pending"
        with r pe show "outcome (promises s' ! r) = outcome (promises s ! r)"
          by (cases "r = q") (simp_all add: pr s1_def nth_append)
      qed (simp_all add: s' follow_eq s1_def)
      show "cache_of s' c' k' = Some p" if "cache_of s c' k' = Some p" for c' k' p
        using that by (simp add: co)
      show "cache_of s c' k' = None"
        if "r < length (promises s')" "length (promises s) \<le> r"
          "shape_of (origin (promises s' ! r)) = SLink y c' k' p" for r y c' k' p
      proof -
        from that(1,2) q have "r = length (promises s) \<or> r = Suc (length (promises s))" "r \<noteq> q"
          by (auto simp: pr s1_def)
        with that(3) show ?thesis
          by (auto simp: pr s1_def nth_append A_def B_def)
      qed
    qed (simp_all add: s' follow_eq s1_def)
    with i' show ?thesis by simp
  qed
qed

lemma fire_link_inv:
  assumes i: "inv s" and q: "q < length (promises s)" and pe: "outcome (promises s ! q) = Pending"
    and sh: "shape_of (origin (promises s ! q)) = SLink x c k p"
    and fl: "follows (promises s ! q) = None"
    and f: "fire n env q s = Some s'"
  shows "inv s' \<and> moves s s'"
proof -
  from i q have ok: "ok_promise s q" by (simp add: inv_def)
  from ok_promise_shape(2)[OF ok sh] have x: "x < q" and c: "c < length (caches s)"
    by (simp_all add: link_ok_def)
  note org = shape_ofD(5)[OF sh]
  from f have ne: "outcome_of s x \<noteq> Pending"
    by (simp add: fire_then[OF q pe fl org] split: if_splits)
  show ?thesis
  proof (cases "outcome_of s x")
    case Pending
    with ne show ?thesis by simp
  next
    case (Fulfilled v)
    with f have s': "s' = settle q (Fulfilled v) s" by (simp add: fire_then[OF q pe fl org])
    have ox: "outcome_of (settle q (Fulfilled v) s) x = Fulfilled v"
      using q x Fulfilled by (simp add: outcome_of_settle)
    have "link_ok (settle q (Fulfilled v) s) q x c k p"
      using q fl ox c by (simp add: link_ok_def)
    then have "ok_promise (settle q (Fulfilled v) s) q" using q x sh by (simp add: ok_promise_def)
    from fire_plain_inv[OF i q pe this _ s'] sh show ?thesis by simp
  next
    case (Rejected e)
    define s0 where "s0 = s\<lparr>cells := cells s @ [now s], attempts := attempts s @ [(c, Some k, fn p)]\<rparr>"
    from f Rejected obtain r1 s1 where
      fd: "fetchDependentResultWith (resolve n env c) env c (Some k) (dependencies p) (fn p) s = Some (r1, s1)"
      and s': "s' = (case r1 of Inl e' \<Rightarrow> settle q (Rejected e') s1 | Inr r \<Rightarrow> follow q r s1)"
      by (auto simp: fire_then[OF q pe fl org] resolvePath_def resolvePathWith_def
          split: option.splits sum.splits)
    note h = fetchDependentResultWith_good[OF resolve_good i c fd, folded s0_def]
    note e = extD[OF h(2)]
    have q1: "q < length (promises s1)" using q e(1) by (simp add: s0_def)
    have pq: "promises s1 ! q = promises s ! q" using e(2)[of q] q by (simp add: s0_def)
    have pe1: "outcome (promises s1 ! q) = Pending" using pe pq by simp
    have at: "(c, Some k, fn p) \<in> set (attempts s1)" using e(11) by (auto simp: s0_def)
    obtain pr where pr: "promises s' = (promises s1)[q := pr]"
      and opr: "origin pr = origin (promises s ! q)"
      and rest: "caches s' = caches s1" "attempts s' = attempts s1" "emitted s' = emitted s1"
      and cases: "(\<exists>e'. r1 = Inl e' \<and> pr = (promises s ! q)\<lparr>outcome := Rejected e'\<rparr>) \<or>
                  (\<exists>r. r1 = Inr r \<and> pr = (promises s ! q)\<lparr>follows := Some r\<rparr>)"
      using s' pq by (cases r1) (simp_all add: settle_eq follow_eq)
    have co: "cache_of s' = cache_of s1" using rest by (simp add: cache_of_def fun_eq_iff)
    have c1: "c < length (caches s')" using c e(8) rest by (simp add: s0_def)
    have ox: "outcome_of s' x = Rejected e"
      using Rejected x q q1 e(1) e(2)[of x] by (simp add: outcome_of_def pr s0_def)
    have lk: "link_ok s' q x c k p"
    proof -
      from cases show ?thesis
      proof (elim disjE exE conjE)
        fix e' assume "r1 = Inl e'" "pr = (promises s ! q)\<lparr>outcome := Rejected e'\<rparr>"
        then show ?thesis
          using q1 fl ox c1 at rest by (simp add: link_ok_def pr)
      next
        fix r assume r: "r1 = Inr r" "pr = (promises s ! q)\<lparr>follows := Some r\<rparr>"
        from h(5)[OF r(1)] have "is_attempt s1 r (Some k) (dependencies p)" .
        then have "is_attempt s' r (Some k) (dependencies p)"
          using opr pq q1 by (cases "r = q") (auto simp: is_attempt_def pr)
        then show ?thesis
          using q1 pe ox c1 at rest r by (simp add: link_ok_def pr)
      qed
    qed
    have i': "inv s'"
    proof (rule inv_update[OF h(1) q1 pe1 pr])
      show "origin pr = origin (promises s1 ! q)" using opr pq by simp
      show "ok_promise s' q"
        using q1 x sh lk opr by (simp add: ok_promise_def pr)
      show "emits_ok s'"
        by (rule emits_ok_update[OF _ q1 pe1 pr]) (use h(1) sh opr rest in \<open>simp_all add: inv_def\<close>)
    qed (simp_all add: co rest)
    have "moves s s'"
    proof (rule movesI)
      have "grows s s0" by (auto simp: grows_def s0_def)
      moreover have "grows s0 s1" using h(2) by (rule ext_grows)
      moreover have "grows s1 s'"
        by (rule grows_update[OF q1 pe1 pr]) (use opr pq rest in simp_all)
      ultimately show "grows s s'" by (blast intro: grows_trans)
      have cs0: "cache_of s0 = cache_of s" by (simp add: s0_def cache_of_def fun_eq_iff)
      show "cache_of s' c' k' = Some y" if "cache_of s c' k' = Some y" for c' k' y
      proof (cases "c' = c")
        case True
        with that e(10) cs0 show ?thesis by (auto simp: co map_le_def dom_def)
      next
        case False
        with that e(9)[of c'] cs0 show ?thesis by (simp add: co)
      qed
      show "fst (snd a) = None \<or>
        (\<exists>k. fst (snd a) = Some k \<and>
           (cache_of s (fst a) k = None \<or>
            (\<exists>q<length (promises s). \<exists>x p. shape_of (origin (promises s ! q)) = SLink x (fst a) k p)))"
        if "a \<in> set (attempts s')" "a \<notin> set (attempts s)" for a
      proof (cases "a = (c, Some k, fn p)")
        case True
        with q sh show ?thesis by auto
      next
        case False
        with that rest have "a \<in> set (attempts s1)" "a \<notin> set (attempts s0)" by (auto simp: s0_def)
        from e(12)[OF this] cs0 show ?thesis by auto
      qed
      show "cache_of s c' k' = None"
        if "r < length (promises s')" "length (promises s) \<le> r"
          "shape_of (origin (promises s' ! r)) = SLink y c' k' p'" for r y c' k' p'
      proof -
        from that q have rq: "r \<noteq> q" by auto
        with that have "r < length (promises s1)" "length (promises s0) \<le> r"
          "shape_of (origin (promises s1 ! r)) = SLink y c' k' p'"
          by (simp_all add: pr s0_def)
        from e(3)[OF this(1,2)] this(3) cs0 show ?thesis by (simp add: fresh_for_def)
      qed
    qed
    with i' show ?thesis by simp
  qed
qed

lemma fire_inv:
  assumes i: "inv s" and f: "fire n env q s = Some s'"
  shows "inv s' \<and> moves s s'"
proof -
  from f have q: "q < length (promises s)" and pe: "outcome (promises s ! q) = Pending"
    by (auto simp: fire_def split: if_splits)
  from i q have ok: "ok_promise s q" by (simp add: inv_def)
  show ?thesis
  proof (cases "follows (promises s ! q)")
    case (Some r)
    from fire_follow_inv[OF i q pe Some f] show ?thesis .
  next
    case None
    show ?thesis
    proof (cases "shape_of (origin (promises s ! q))")
      case SMade
      with f q pe None shape_ofD(1)[OF SMade] show ?thesis by (simp add: fire_def)
    next
      case SProducer
      with f q pe None shape_ofD(2)[OF SProducer] show ?thesis by (simp add: fire_def)
    next
      case (SAll ps)
      from fire_all_inv[OF i q pe SAll f] show ?thesis .
    next
      case (SGuard x c k)
      from fire_guard_inv[OF i q pe SGuard f] show ?thesis .
    next
      case (SLink x c k p)
      from fire_link_inv[OF i q pe SLink None f] show ?thesis .
    next
      case (STask x g)
      from fire_task_inv[OF i q pe STask None f] show ?thesis .
    next
      case (SEvent x)
      from fire_event_inv[OF i q pe SEvent f] show ?thesis .
    next
      case (SRecord x g)
      from fire_record_inv[OF i q pe SRecord f] show ?thesis .
    next
      case SOther
      with ok show ?thesis by (simp add: ok_promise_def)
    qed
  qed
qed

lemma seed_inv:
  "inv s \<Longrightarrow>
   (\<forall>k p. cache k = Some p \<longrightarrow> p < length (promises s) \<and> origin (promises s ! p) = Made \<and>
      fulfilled (outcome (promises s ! p))) \<Longrightarrow>
   seed kvs (cache, s) = (cache', s') \<Longrightarrow>
   inv s' \<and>
   (\<forall>k p. cache' k = Some p \<longrightarrow> p < length (promises s') \<and> origin (promises s' ! p) = Made \<and>
      fulfilled (outcome (promises s' ! p))) \<and>
   caches s' = caches s \<and> attempts s' = attempts s \<and> stats s' = stats s \<and> calls s' = calls s \<and>
   length (promises s) \<le> length (promises s') \<and>
   (\<forall>q<length (promises s). promises s' ! q = promises s ! q) \<and>
   (\<forall>q<length (promises s'). length (promises s) \<le> q \<longrightarrow> origin (promises s' ! q) = Made)"
proof (induction kvs arbitrary: cache s)
  case Nil
  then show ?case by simp
next
  case (Cons kv kvs)
  obtain k v where kv: "kv = (k, v)" by (cases kv)
  let ?pr = "\<lparr>origin = Made, outcome = Fulfilled v, follows = None\<rparr>"
  let ?s1 = "s\<lparr>promises := promises s @ [?pr]\<rparr>"
  have i1: "inv ?s1" using inv_alloc_made[OF Cons.prems(1), of "Fulfilled v"] by (simp add: alloc_def)
  have c1: "\<forall>k' p. (cache(k \<mapsto> length (promises s))) k' = Some p \<longrightarrow> p < length (promises ?s1) \<and>
      origin (promises ?s1 ! p) = Made \<and> fulfilled (outcome (promises ?s1 ! p))"
    using Cons.prems(2) by (auto simp: nth_append less_Suc_eq)
  have sd: "seed kvs (cache(k \<mapsto> length (promises s)), ?s1) = (cache', s')"
    using Cons.prems(3) by (simp add: kv alloc_def)
  note h = Cons.IH[OF i1 c1 sd]
  from h have l: "Suc (length (promises s)) \<le> length (promises s')" by simp
  from h have same: "\<forall>q<Suc (length (promises s)). promises s' ! q = promises ?s1 ! q" by simp
  from h have made: "\<forall>q<length (promises s'). Suc (length (promises s)) \<le> q \<longrightarrow>
      origin (promises s' ! q) = Made" by simp
  have a: "promises s' ! q = promises s ! q" if "q < length (promises s)" for q
    using same that by (simp add: nth_append)
  have b: "origin (promises s' ! q) = Made" if "q < length (promises s')" "length (promises s) \<le> q" for q
  proof (cases "q = length (promises s)")
    case True
    with same have "promises s' ! q = ?pr" by (simp add: nth_append)
    then show ?thesis by simp
  next
    case False
    with that made show ?thesis by simp
  qed
  from h have r: "inv s'" "\<forall>k p. cache' k = Some p \<longrightarrow> p < length (promises s') \<and>
      origin (promises s' ! p) = Made \<and> fulfilled (outcome (promises s' ! p))"
    "caches s' = caches s" "attempts s' = attempts s" "stats s' = stats s" "calls s' = calls s"
    by simp_all
  from l have l': "length (promises s) \<le> length (promises s')" by simp
  from r l' a b show ?case by blast
qed

lemma Orchestration_inv:
  assumes i: "inv s" and o: "Orchestration initialData s = (c, s')"
  shows "inv s' \<and> moves s s' \<and> c = length (caches s) \<and> length (caches s') = Suc (length (caches s)) \<and>
         stats s' = stats s \<and> calls s' = calls s \<and> attempts s' = attempts s"
proof -
  obtain cache s1 where sd: "seed initialData (Map.empty, s) = (cache, s1)"
    by (cases "seed initialData (Map.empty, s)")
  from seed_inv[OF i _ sd] have h: "inv s1"
    "\<forall>k p. cache k = Some p \<longrightarrow> p < length (promises s1) \<and> origin (promises s1 ! p) = Made \<and>
      fulfilled (outcome (promises s1 ! p))"
    "caches s1 = caches s" "attempts s1 = attempts s" "stats s1 = stats s" "calls s1 = calls s"
    "length (promises s) \<le> length (promises s1)"
    "\<forall>q<length (promises s). promises s1 ! q = promises s ! q"
    "\<forall>q<length (promises s1). length (promises s) \<le> q \<longrightarrow> origin (promises s1 ! q) = Made"
    by simp_all
  from o sd have c: "c = length (caches s)" and s': "s' = s1\<lparr>caches := caches s1 @ [cache]\<rparr>"
    using h(3) by (simp_all add: Orchestration_def)
  have co: "cache_of s' c' = cache_of s1 c'" if "c' < length (caches s1)" for c'
    using that by (simp add: s' cache_of_def nth_append)
  have g: "grows s1 s'" by (simp add: grows_def s')
  have "ok_promise s' q" if "q < length (promises s')" for q
  proof -
    from that have q: "q < length (promises s1)" by (simp add: s')
    with h(1) have "ok_promise s1 q" by (simp add: inv_def)
    from ok_promise_grows[OF this q g] co show ?thesis by (simp add: s')
  qed
  moreover have "cache_ok s'"
    unfolding cache_ok_def
  proof (intro allI impI)
    fix c' k p assume c': "c' < length (caches s')" and e: "(caches s' ! c') k = Some p"
    show "p < length (promises s') \<and>
       (origin (promises s' ! p) = Made \<and> fulfilled (outcome (promises s' ! p)) \<or>
        (\<exists>x. origin (promises s' ! p) = ThenOf x None (Some (Evict c' k))))"
    proof (cases "c' < length (caches s1)")
      case True
      with e have "(caches s1 ! c') k = Some p" by (simp add: s' nth_append)
      with h(1) True show ?thesis unfolding inv_def cache_ok_def by (simp add: s')
    next
      case False
      with c' e have "cache k = Some p" by (simp add: s' nth_append)
      with h(2) show ?thesis by (simp add: s')
    qed
  qed
  moreover have "emits_ok s'" using h(1) by (simp add: inv_def emits_ok_def s')
  ultimately have i': "inv s'" by (simp add: inv_def)
  have "moves s s'"
  proof (rule movesI)
    show "grows s s'" using h by (simp add: grows_def s')
    show "cache_of s' c' k = Some p" if "cache_of s c' k = Some p" for c' k p
    proof -
      from that have "c' < length (caches s)" by (auto simp: cache_of_def split: if_splits)
      with that h(3) show ?thesis by (simp add: co) (simp add: cache_of_def)
    qed
    show "cache_of s c' k = None"
      if "q < length (promises s')" "length (promises s) \<le> q"
        "shape_of (origin (promises s' ! q)) = SLink x c' k p" for q x c' k p
      using that h(9) by (auto simp: s')
  qed (simp_all add: s' h)
  with i' c h show ?thesis by (simp add: s')
qed

lemma Orchestrator_inv: "Orchestrator env rawspec t = Inr s \<Longrightarrow> inv s"
  by (auto simp: Orchestrator_def inv_def cache_ok_def emits_ok_def split: sum.splits)

lemma get_inv:
  assumes i: "inv s" and c: "c < length (caches s)" and g: "get n env c ks s = Some (r, s')"
  shows "inv s' \<and> moves s s'"
proof -
  let ?s = "s\<lparr>closures := Suc (closures s)\<rparr>"
  define s0 where "s0 = ?s\<lparr>cells := cells ?s @ [now ?s],
      attempts := attempts ?s @ [(c, None, Identity (closures s))]\<rparr>"
  have i0: "inv ?s" by (rule inv_frame[OF i]) simp_all
  have c0: "c < length (caches ?s)" using c by simp
  from g have fd: "fetchDependentResultWith (resolve n env c) env c None ks (Identity (closures s)) ?s
      = Some (r, s')"
    by (simp add: get_def fetchDependentResult_def)
  note h = fetchDependentResultWith_good[OF resolve_good i0 c0 fd, folded s0_def]
  note e = extD[OF h(2)]
  have cs0: "cache_of s0 = cache_of s" by (simp add: s0_def cache_of_def fun_eq_iff)
  have "moves s s'"
  proof (rule movesI)
    have "grows s s0" by (auto simp: grows_def s0_def)
    moreover have "grows s0 s'" using h(2) by (rule ext_grows)
    ultimately show "grows s s'" by (rule grows_trans)
    show "cache_of s' c' k' = Some y" if "cache_of s c' k' = Some y" for c' k' y
    proof (cases "c' = c")
      case True
      with that e(10) cs0 show ?thesis by (auto simp: map_le_def dom_def)
    next
      case False
      with that e(9)[of c'] cs0 show ?thesis by simp
    qed
    show "fst (snd a) = None \<or>
        (\<exists>k. fst (snd a) = Some k \<and>
           (cache_of s (fst a) k = None \<or>
            (\<exists>q<length (promises s). \<exists>x p. shape_of (origin (promises s ! q)) = SLink x (fst a) k p)))"
      if "a \<in> set (attempts s')" "a \<notin> set (attempts s)" for a
    proof (cases "a = (c, None, Identity (closures s))")
      case True
      then show ?thesis by simp
    next
      case False
      with that have "a \<in> set (attempts s')" "a \<notin> set (attempts s0)" by (auto simp: s0_def)
      from e(12)[OF this] cs0 show ?thesis by auto
    qed
    show "cache_of s c' k' = None"
      if "q < length (promises s')" "length (promises s) \<le> q"
        "shape_of (origin (promises s' ! q)) = SLink y c' k' p'" for q y c' k' p'
    proof -
      from that have "length (promises s0) \<le> q" by (simp add: s0_def)
      from e(3)[OF that(1) this] that(3) cs0 show ?thesis by (simp add: fresh_for_def)
    qed
  qed
  with h(1) show ?thesis by simp
qed

lemma step_inv:
  assumes i: "inv s" and st: "step n env ev s = Some s'"
  shows "inv s' \<and> moves s s'"
proof (cases ev)
  case (NewScope initialData)
  obtain c s1 where o: "Orchestration initialData s = (c, s1)" by (cases "Orchestration initialData s")
  with st NewScope have "s' = s1" by simp
  with Orchestration_inv[OF i o] show ?thesis by simp
next
  case (Call c k)
  with st obtain r where c: "c < length (caches s)" and r: "resolve n env c k s = Some (r, s')"
    by (auto split: if_splits)
  from goodD(1,2)[OF resolve_good i c r] ext_moves show ?thesis by blast
next
  case (Get c ks)
  with st obtain r where c: "c < length (caches s)" and r: "get n env c ks s = Some (r, s')"
    by (auto split: if_splits)
  from get_inv[OF i c r] show ?thesis .
next
  case (Fire q)
  with st fire_inv[OF i] show ?thesis by simp
next
  case (Settle p out)
  with st have p: "p < length (promises s)" and org: "origin (promises s ! p) = Producer"
    and pe: "outcome (promises s ! p) = Pending" and s': "s' = settle p out s"
    by (auto split: if_splits)
  from i p have "ok_promise s p" by (simp add: inv_def)
  with org p have "ok_promise (settle p out s) p" by (simp add: ok_promise_def)
  from fire_plain_inv[OF i p pe this _ s'] org show ?thesis by simp
next
  case (Tick d)
  with st have s': "s' = s\<lparr>now := now s + int d\<rparr>" by simp
  have "inv s'" unfolding s' by (rule inv_frame[OF i]) simp_all
  moreover have "moves s s'" unfolding s' by (rule moves_frame) simp_all
  ultimately show ?thesis by simp
qed

section \<open>The wiring of the promises and the order of the attempts\<close>

lemma covered_old: "q < length os \<Longrightarrow> covered os q \<Longrightarrow> covered (os @ os') q"
  unfolding covered_def
  by (auto simp: nth_append) (metis less_imp_le_nat not_less order_less_le_trans trans_less_add1)+

lemma sourced_old: "q < length os \<Longrightarrow> sourced os q \<Longrightarrow> sourced (os @ os') q"
  unfolding sourced_def by (auto simp: nth_append)

lemma wired_but_mono: "wired_but os X \<Longrightarrow> X \<subseteq> Y \<Longrightarrow> wired_but os Y"
  unfolding wired_but_def by blast

lemma wired_but_append:
  assumes w: "wired_but os X"
    and e: "\<And>x. shape_of org = SEvent x \<Longrightarrow>
        x < length os \<and> (\<exists>y f. shape_of (os ! x) = SRecord y f \<or> shape_of (os ! x) = STask y f)"
    and l: "\<And>x c k p. shape_of org \<noteq> SLink x c k p"
  shows "wired_but (os @ [org]) X"
  unfolding wired_but_def
proof (intro allI impI)
  fix q assume "q < length (os @ [org])"
  then consider "q < length os" | "q = length os" by fastforce
  then show "sourced (os @ [org]) q \<and> (q \<notin> X \<longrightarrow> covered (os @ [org]) q)"
  proof cases
    case 1
    with w have "sourced os q" "q \<notin> X \<longrightarrow> covered os q" by (simp_all add: wired_but_def)
    with 1 show ?thesis using sourced_old covered_old by blast
  next
    case 2
    have "sourced (os @ [org]) q" unfolding sourced_def using e 2 by (auto simp: nth_append)
    moreover have "covered (os @ [org]) q" unfolding covered_def using l 2 by simp
    ultimately show ?thesis by simp
  qed
qed

lemma wired_but_next:
  assumes w: "wired_but os X" and x: "ends c k os x"
    and h: "h = NextPath c k p \<or> h = Evict c k"
  shows "wired_but (os @ [ThenOf x None (Some h)]) (insert (length os) (X - {x}))"
  unfolding wired_but_def
proof (intro allI impI)
  let ?os = "os @ [ThenOf x None (Some h)]"
  fix q assume "q < length ?os"
  then consider "q < length os" | "q = length os" by fastforce
  then show "sourced ?os q \<and> (q \<notin> insert (length os) (X - {x}) \<longrightarrow> covered ?os q)"
  proof cases
    case 1
    with w have s: "sourced os q" and cv: "q \<notin> X \<longrightarrow> covered os q" by (simp_all add: wired_but_def)
    have "covered ?os q" if "q \<notin> insert (length os) (X - {x})"
    proof (cases "q = x")
      case True
      show ?thesis
        unfolding covered_def
      proof (intro allI impI)
        fix z c' k' p' assume "shape_of (?os ! q) = SLink z c' k' p'"
        with 1 True x have "c' = c" "k' = k" by (auto simp: ends_def nth_append)
        with h True 1 show "\<exists>q'<length ?os. q < q' \<and>
            ((\<exists>p'. shape_of (?os ! q') = SLink q c' k' p') \<or> shape_of (?os ! q') = SGuard q c' k')"
          by (intro exI[of _ "length os"]) auto
      qed
    next
      case False
      with that cv have "covered os q" by simp
      with 1 show ?thesis by (rule covered_old)
    qed
    with s 1 show ?thesis using sourced_old by blast
  next
    case 2
    have "sourced ?os q" unfolding sourced_def using h 2 by auto
    with 2 show ?thesis by simp
  qed
qed

lemma wired_but_guard:
  assumes w: "wired_but os {x}" and x: "ends c k os x"
  shows "wired_but (os @ [ThenOf x None (Some (Evict c k))]) {}"
  unfolding wired_but_def
proof (intro allI impI)
  let ?os = "os @ [ThenOf x None (Some (Evict c k))]"
  fix q assume q: "q < length ?os"
  from wired_but_next[OF w x, of "Evict c k"] q
  have a: "sourced ?os q" and b: "q \<noteq> length os \<Longrightarrow> covered ?os q"
    by (simp_all add: wired_but_def)
  have "covered ?os (length os)" by (simp add: covered_def)
  with a b show "sourced ?os q \<and> (q \<notin> {} \<longrightarrow> covered ?os q)" by (cases "q = length os") simp_all
qed

lemma orgs_simps [simp]:
  "orgs (s\<lparr>promises := ps\<rparr>) = map origin ps"
  "orgs (s\<lparr>cells := cs\<rparr>) = orgs s" "orgs (s\<lparr>attempts := as\<rparr>) = orgs s"
  "orgs (s\<lparr>calls := cl\<rparr>) = orgs s" "orgs (s\<lparr>caches := ca\<rparr>) = orgs s"
  "orgs (s\<lparr>closures := n\<rparr>) = orgs s" "orgs (s\<lparr>now := t\<rparr>) = orgs s"
  "orgs (s\<lparr>stats := st\<rparr>) = orgs s" "orgs (s\<lparr>emitted := em\<rparr>) = orgs s"
  by (simp_all add: orgs_def)

lemma length_orgs [simp]: "length (orgs s) = length (promises s)"
  by (simp add: orgs_def)

lemma nth_orgs [simp]: "q < length (promises s) \<Longrightarrow> orgs s ! q = origin (promises s ! q)"
  by (simp add: orgs_def)

lemma news_Nil [simp]: "news c s []"
  by (simp add: news_def)

lemma news_append [simp]: "news c s (a @ b) \<longleftrightarrow> news c s a \<and> news c s b"
  by (auto simp: news_def)

lemma news_mono: "cache_of s c \<subseteq>\<^sub>m cache_of s1 c \<Longrightarrow> news c s1 new \<Longrightarrow> news c s new"
  unfolding news_def using map_le_None by fastforce

lemma good2D:
  assumes "good2 c res" and "inv s" and "wired s" and "c < length (caches s)" and "res k s = Some (r, s')"
  shows "wired s'" and "\<exists>new. attempts s' = attempts s @ new \<and> news c s new"
  using assms unfolding good2_def by blast+

lemma resolveAll_good2:
  assumes g: "good c res" and g2: "good2 c res"
  shows "inv s \<Longrightarrow> wired s \<Longrightarrow> c < length (caches s) \<Longrightarrow> resolveAll res ds s = Some (r, s') \<Longrightarrow>
     wired s' \<and> (\<exists>new. attempts s' = attempts s @ new \<and> news c s new)"
proof (induction ds arbitrary: s r)
  case Nil
  then show ?case by simp
next
  case (Cons d ds)
  from Cons.prems(4) obtain r1 s1 where r1: "res d s = Some (r1, s1)"
    by (auto split: option.splits)
  note h = goodD[OF g Cons.prems(1,3) r1]
  note h2 = good2D[OF g2 Cons.prems(1,2,3) r1]
  show ?case
  proof (cases r1)
    case (Inl e)
    with Cons.prems(4) r1 have "s' = s1" by simp
    with h2 show ?thesis by simp
  next
    case (Inr p)
    with Cons.prems(4) r1 obtain r2 where r2: "resolveAll res ds s1 = Some (r2, s')"
      by (auto split: option.splits sum.splits)
    have c1: "c < length (caches s1)" using extD(8)[OF h(2)] Cons.prems(3) by simp
    from Cons.IH[OF h(1) h2(1) c1 r2] obtain n2 where
      w: "wired s'" and a2: "attempts s' = attempts s1 @ n2" and n2: "news c s1 n2" by blast
    from h2(2) obtain n1 where a1: "attempts s1 = attempts s @ n1" and n1: "news c s n1" by blast
    from news_mono[OF extD(10)[OF h(2)] n2] n1 a1 a2
    have "attempts s' = attempts s @ (n1 @ n2) \<and> news c s (n1 @ n2)" by simp
    with w show ?thesis by blast
  qed
qed

lemma wired_frame: "orgs s' = orgs s \<Longrightarrow> wired s' = wired s"
  by (simp add: wired_def)

lemma fetchDependentResultWith_good2:
  assumes g: "good c res" and g2: "good2 c res" and i: "inv s" and w: "wired s"
    and c: "c < length (caches s)"
    and f: "fetchDependentResultWith res env c nm ds f s = Some (r, s')"
  shows "wired s' \<and> (\<exists>new. attempts s' = attempts s @ (c, nm, f) # new \<and> news c s new)"
proof -
  define s0 where "s0 = s\<lparr>cells := cells s @ [now s], attempts := attempts s @ [(c, nm, f)]\<rparr>"
  have i0: "inv s0" by (rule inv_frame[OF i]) (auto simp: s0_def)
  have w0: "wired s0" using w by (simp add: wired_def s0_def)
  have c0: "c < length (caches s0)" using c by (simp add: s0_def)
  have cs0: "cache_of s0 = cache_of s" by (simp add: s0_def cache_of_def fun_eq_iff)
  show ?thesis
  proof (cases "ds = []")
    case True
    with f have s': "s' = snd (then_p (fst (execute env f [] s0))
        (Some (EmitTiming nm ds (now s) (length (cells s)))) None (snd (execute env f [] s0)))"
      by (simp add: fetchDependentResultWith_def Let_def s0_def split: prod.splits)
    have o: "orgs s' = ((orgs s @ [Producer]) @
        [ThenOf (length (promises s)) (Some (RecordOk f (now s))) (Some (RecordErr f))]) @
        [ThenOf (Suc (length (promises s))) (Some (EmitTiming nm ds (now s) (length (cells s)))) None]"
      by (simp add: s' execute_eq then_p_eq s0_def orgs_def)
    have "wired_but (orgs s') {}"
      unfolding o using w
      by (intro wired_but_append) (simp_all add: wired_def nth_append)
    moreover have "attempts s' = attempts s @ (c, nm, f) # []"
      by (simp add: s' execute_eq then_p_eq s0_def)
    ultimately show ?thesis unfolding wired_def by (metis news_Nil)
  next
    case False
    with f obtain r1 s1 where r1: "resolveAll res ds s0 = Some (r1, s1)"
      by (auto simp: fetchDependentResultWith_def Let_def s0_def split: option.splits)
    from resolveAll_good2[OF g g2 i0 w0 c0 r1] obtain new where
      w1: "wired s1" and a1: "attempts s1 = attempts s0 @ new" and n1: "news c s0 new" by blast
    from n1 cs0 have n: "news c s new" by (simp add: news_def)
    from a1 have a: "attempts s1 = attempts s @ (c, nm, f) # new" by (simp add: s0_def)
    show ?thesis
    proof (cases r1)
      case (Inl e)
      with f r1 False have "s' = s1"
        by (simp add: fetchDependentResultWith_def Let_def s0_def)
      with w1 a n show ?thesis by blast
    next
      case (Inr ps)
      with f r1 False have s': "s' = s1\<lparr>promises := promises s1 @
           [\<lparr>origin = AllOf ps, outcome = (if ps = [] then Fulfilled (Arr []) else Pending), follows = None\<rparr>,
            \<lparr>origin = ThenOf (length (promises s1)) (Some (DepsReady (length (cells s)) ds f)) None,
              outcome = Pending, follows = None\<rparr>,
            \<lparr>origin = ThenOf (Suc (length (promises s1))) (Some (EmitTiming nm ds (now s) (length (cells s)))) None,
              outcome = Pending, follows = None\<rparr>]\<rparr>"
        by (simp add: fetchDependentResultWith_def Let_def s0_def Promise_all_def then_p_def alloc_def)
      have o: "orgs s' = ((orgs s1 @ [AllOf ps]) @
          [ThenOf (length (promises s1)) (Some (DepsReady (length (cells s)) ds f)) None]) @
          [ThenOf (Suc (length (promises s1))) (Some (EmitTiming nm ds (now s) (length (cells s)))) None]"
        by (simp add: s' orgs_def)
      have "wired_but (orgs s') {}"
        unfolding o using w1
        by (intro wired_but_append) (simp_all add: wired_def nth_append)
      moreover have "attempts s' = attempts s1" by (simp add: s')
      ultimately show ?thesis using a n unfolding wired_def by auto
    qed
  qed
qed

lemma chainPaths_good2:
  "wired_but (orgs s) {x} \<Longrightarrow> ends c k (orgs s) x \<Longrightarrow> chainPaths c k cps (x, s) = (y, s') \<Longrightarrow>
   wired_but (orgs s') {y} \<and> ends c k (orgs s') y \<and> attempts s' = attempts s"
proof (induction cps arbitrary: x s)
  case Nil
  then show ?case by simp
next
  case (Cons cp cps)
  let ?s1 = "s\<lparr>promises := promises s @
      [\<lparr>origin = ThenOf x None (Some (NextPath c k (path cp))), outcome = Pending, follows = None\<rparr>]\<rparr>"
  from Cons.prems(3) have ch: "chainPaths c k cps (length (promises s), ?s1) = (y, s')"
    by (simp add: then_p_eq)
  have o: "orgs ?s1 = orgs s @ [ThenOf x None (Some (NextPath c k (path cp)))]"
    by (simp add: orgs_def)
  from wired_but_next[OF Cons.prems(1,2), of "NextPath c k (path cp)" "path cp"]
  have w1: "wired_but (orgs ?s1) {length (promises s)}" by (simp add: orgs_def)
  have e1: "ends c k (orgs ?s1) (length (promises s))"
    by (simp add: ends_def orgs_def nth_append)
  from Cons.IH[OF w1 e1 ch] show ?case by simp
qed

lemma fetchResultWith_good2:
  assumes g: "good c res" and g2: "good2 c res" and i: "inv s" and w: "wired s"
    and c: "c < length (caches s)" and n: "cache_of s c k = None"
    and f: "fetchResultWith res m env c k s = Some (r, s')"
  shows "(\<exists>new. attempts s' = attempts s @ new \<and> news c s new) \<and>
         (case r of Inl e \<Rightarrow> wired s' | Inr y \<Rightarrow> wired_but (orgs s') {y} \<and> ends c k (orgs s') y)"
proof (cases "getPrioritizedPaths m (spec s) (stats s) (cache_of s c) k")
  case None
  with f show ?thesis by (simp add: fetchResultWith_def)
next
  case (Some a)
  show ?thesis
  proof (cases a)
    case (Inl e)
    with Some f have "s' = s" "r = Inl e" by (simp_all add: fetchResultWith_def)
    with w show ?thesis by simp
  next
    case (Inr cps0)
    show ?thesis
    proof (cases cps0)
      case Nil
      with Some Inr f have "s' = s" "r = Inl TypeError" by (simp_all add: fetchResultWith_def)
      with w show ?thesis by simp
    next
      case (Cons cp cps)
      with Some Inr f obtain r1 s1 where
        fd: "fetchDependentResultWith res env c (Some k) (dependencies (path cp)) (fn (path cp)) s = Some (r1, s1)"
        by (auto simp: fetchResultWith_def resolvePathWith_def split: option.splits)
      from fetchDependentResultWith_good2[OF g g2 i w c fd] obtain new where
        w1: "wired s1" and a1: "attempts s1 = attempts s @ (c, Some k, fn (path cp)) # new"
        and n1: "news c s new" by blast
      from n n1 have nn: "news c s ((c, Some k, fn (path cp)) # new)" by (simp add: news_def)
      show ?thesis
      proof (cases r1)
        case (Inl e)
        with Some Inr Cons f fd have "s' = s1" "r = Inl e"
          by (simp_all add: fetchResultWith_def resolvePathWith_def)
        with w1 a1 nn show ?thesis by auto
      next
        case r1: (Inr first)
        with Some Inr Cons f fd obtain y where ch: "chainPaths c k cps (first, s1) = (y, s')"
          and r: "r = Inr y"
          by (auto simp: fetchResultWith_def resolvePathWith_def split: prod.splits)
        note h = fetchDependentResultWith_good[OF g i c fd]
        from h(3)[OF r1] have fl: "first < length (promises s1)" .
        from h(5)[OF r1] fl have "ends c k (orgs s1) first"
          by (auto simp: ends_def is_attempt_def)
        moreover from w1 have "wired_but (orgs s1) {first}"
          unfolding wired_def by (rule wired_but_mono) simp
        ultimately have "wired_but (orgs s') {y} \<and> ends c k (orgs s') y \<and> attempts s' = attempts s1"
          using ch by (intro chainPaths_good2)
        with a1 nn r show ?thesis by auto
      qed
    qed
  qed
qed

lemma resolve_good2: "good2 c (resolve n env c)"
proof (induction n)
  case 0
  show ?case by (simp add: good2_def)
next
  case (Suc n)
  show ?case
    unfolding good2_def
  proof (intro allI impI, elim conjE)
    fix k s r s'
    assume i: "inv s" and w: "wired s" and c: "c < length (caches s)"
      and r: "resolve (Suc n) env c k s = Some (r, s')"
    show "wired s' \<and> (\<exists>new. attempts s' = attempts s @ new \<and> news c s new)"
    proof (cases "cache_of s c k")
      case (Some p)
      with r have "s' = s" by simp
      with w show ?thesis by simp
    next
      case None
      show ?thesis
      proof (cases "spec s k = None")
        case True
        with None r have s': "s' = s\<lparr>promises := promises s @
            [\<lparr>origin = Made, outcome = Rejected (NotDefined k), follows = None\<rparr>]\<rparr>"
          by (simp add: alloc_def)
        have "wired_but (orgs s @ [Made]) {}"
          using w by (intro wired_but_append) (simp_all add: wired_def)
        then show ?thesis by (simp add: s' wired_def orgs_def)
      next
        case False
        then obtain ps where sp: "spec s k = Some ps" by blast
        with None r obtain r1 s1 where
          f: "fetchResultWith (resolve n env c) n env c k s = Some (r1, s1)"
          by (auto split: option.splits)
        from fetchResultWith_good2[OF resolve_good Suc i w c None f] obtain new where
          a: "attempts s1 = attempts s @ new" and nw: "news c s new"
          and cs: "case r1 of Inl e \<Rightarrow> wired s1 | Inr y \<Rightarrow> wired_but (orgs s1) {y} \<and> ends c k (orgs s1) y"
          by blast
        show ?thesis
        proof (cases r1)
          case (Inl e)
          with None sp r f have "s' = s1" by simp
          with cs Inl a nw show ?thesis by auto
        next
          case (Inr y)
          with None sp r f have s': "s' = (snd (then_p y None (Some (Evict c k)) s1))
              \<lparr>caches := (caches s1)[c := (cache_of s1 c)(k \<mapsto> length (promises s1))]\<rparr>"
            by (simp add: then_p_eq)
          from cs Inr have "wired_but (orgs s1) {y}" "ends c k (orgs s1) y" by simp_all
          from wired_but_guard[OF this] have "wired s'"
            by (simp add: s' wired_def then_p_eq orgs_def)
          moreover have "attempts s' = attempts s1" by (simp add: s' then_p_eq)
          ultimately show ?thesis using a nw by auto
        qed
      qed
    qed
  qed
qed

section \<open>What an event changes\<close>

lemma staysI:
  assumes "spec s' = spec s"
    and "\<And>c k p. cache_of s c k = Some p \<Longrightarrow> cache_of s' c k = Some p"
    and "attempts s' = attempts s @ new"
    and "\<And>a. a \<in> set new \<Longrightarrow> fst a < length (caches s) \<and> (fst (snd a) = None \<or>
           (\<exists>k. fst (snd a) = Some k \<and>
              (cache_of s (fst a) k = None \<or>
               (\<exists>q<length (promises s). \<exists>x p. shape_of (origin (promises s ! q)) = SLink x (fst a) k p \<and>
                   outcome (promises s ! q) = Pending \<and> fn p = snd (snd a)))))"
  shows "stays s s'"
  unfolding stays_def
proof (intro conjI allI impI)
  show "\<exists>new. attempts s' = attempts s @ new \<and>
        (\<forall>a\<in>set new. fst a < length (caches s) \<and> (fst (snd a) = None \<or>
           (\<exists>k. fst (snd a) = Some k \<and>
              (cache_of s (fst a) k = None \<or>
               (\<exists>q<length (promises s). \<exists>x p. shape_of (origin (promises s ! q)) = SLink x (fst a) k p \<and>
                   outcome (promises s ! q) = Pending \<and> fn p = snd (snd a))))))"
    using assms(3,4) by (intro exI[of _ new]) blast
qed (use assms(1,2) in simp_all)

lemma stays_plain:
  assumes "cache_of s' = cache_of s" and "attempts s' = attempts s" and "spec s' = spec s"
  shows "stays s s'"
  by (rule staysI[where new = "[]"]) (use assms in simp_all)

lemma orgs_update:
  "origin pr = origin (promises s ! q) \<Longrightarrow> map origin ((promises s)[q := pr]) = orgs s"
  by (cases "q < length (promises s)")
     (simp_all add: orgs_def map_update list_update_same_conv list_update_beyond not_less)

lemma orgs_settle [simp]: "orgs (settle q out s) = orgs s"
  by (simp add: settle_eq orgs_update)

lemma orgs_follow [simp]: "orgs (follow q r s) = orgs s"
  by (simp add: follow_eq orgs_update)

lemma cache_of_follow [simp]: "cache_of (follow q r s) = cache_of s"
  by (simp add: follow_def)

lemma cache_of_frame:
  "cache_of (s\<lparr>stats := st\<rparr>) = cache_of s" "cache_of (s\<lparr>emitted := em\<rparr>) = cache_of s"
  "cache_of (s\<lparr>cells := cs\<rparr>) = cache_of s" "cache_of (s\<lparr>calls := cl\<rparr>) = cache_of s"
  "cache_of (s\<lparr>attempts := as\<rparr>) = cache_of s" "cache_of (s\<lparr>now := t\<rparr>) = cache_of s"
  "cache_of (s\<lparr>closures := n\<rparr>) = cache_of s"
  by (simp_all add: cache_of_def fun_eq_iff)

lemma plain2:
  assumes "wired s" and "orgs s' = orgs s" and "cache_of s' = cache_of s"
    and "attempts s' = attempts s" and "spec s' = spec s"
  shows "wired s' \<and> stays s s'"
  using assms by (simp add: wired_def stays_plain)

lemma ext_cache_keeps:
  assumes "ext c s s'" and "cache_of s c' k = Some p"
  shows "cache_of s' c' k = Some p"
proof (cases "c' = c")
  case True
  with assms(2) extD(10)[OF assms(1)] show ?thesis by (auto simp: map_le_def dom_def)
next
  case False
  with assms(2) extD(9)[OF assms(1), of c'] show ?thesis by simp
qed

lemma fire_stays:
  assumes i: "inv s" and w: "wired s" and f: "fire n env q s = Some s'"
  shows "wired s' \<and> stays s s'"
proof -
  from f have q: "q < length (promises s)" and pe: "outcome (promises s ! q) = Pending"
    by (auto simp: fire_def split: if_splits)
  from i q have ok: "ok_promise s q" by (simp add: inv_def)
  have plain: "wired s' \<and> stays s s'" if "s' = settle q out s" for out
    by (rule plain2[OF w]) (simp_all add: that, simp_all add: settle_eq)
  show ?thesis
  proof (cases "follows (promises s ! q)")
    case (Some r)
    with f q pe have "s' = settle q (outcome_of s r) s" by (simp add: fire_def split: if_splits)
    then show ?thesis by (rule plain)
  next
    case None
    show ?thesis
    proof (cases "shape_of (origin (promises s ! q))")
      case SMade
      with f q pe None shape_ofD(1)[OF SMade] show ?thesis by (simp add: fire_def)
    next
      case SProducer
      with f q pe None shape_ofD(2)[OF SProducer] show ?thesis by (simp add: fire_def)
    next
      case (SAll ps)
      with f q pe None shape_ofD(3)[OF SAll]
      have "s' = settle q (allOutcome (map (outcome_of s) ps)) s"
        by (simp add: fire_def Let_def split: if_splits)
      then show ?thesis by (rule plain)
    next
      case (SGuard x c k)
      note org = shape_ofD(4)[OF SGuard]
      from ok_promise_shape(1)[OF ok SGuard] pe have c: "c < length (caches s)"
        and ca: "cache_of s c k = Some q" by (simp_all add: guard_ok_def)
      show ?thesis
      proof (cases "outcome_of s x")
        case Pending
        with f show ?thesis by (simp add: fire_then[OF q pe None org])
      next
        case (Fulfilled v)
        with f have "s' = settle q (Fulfilled v) s" by (simp add: fire_then[OF q pe None org])
        then show ?thesis by (rule plain)
      next
        case (Rejected e)
        with f have s': "s' = settle q (Rejected e) (s\<lparr>caches := (caches s)[c := (cache_of s c)(k := None)]\<rparr>)"
          by (simp add: fire_then[OF q pe None org])
        have co: "cache_of s' c' = (if c' = c then (cache_of s c)(k := None) else cache_of s c')" for c'
          using c by (simp add: s' cache_of_update)
        have oq: "outcome_of s' q = Rejected e" using q by (simp add: s' outcome_of_settle)
        have "stays s s'"
          unfolding stays_def
        proof (intro conjI allI impI)
          show "spec s' = spec s" by (simp add: s' settle_eq)
          show "\<exists>new. attempts s' = attempts s @ new \<and>
            (\<forall>a\<in>set new. fst a < length (caches s) \<and> (fst (snd a) = None \<or>
              (\<exists>k. fst (snd a) = Some k \<and>
                (cache_of s (fst a) k = None \<or>
                 (\<exists>q<length (promises s). \<exists>x p. shape_of (origin (promises s ! q)) = SLink x (fst a) k p \<and>
                   outcome (promises s ! q) = Pending \<and> fn p = snd (snd a))))))"
            by (intro exI[of _ "[]"]) (simp add: s' settle_eq)
        next
          fix c' k' p' assume h: "cache_of s c' k' = Some p'"
          show "cache_of s' c' k' = Some p' \<or>
             (outcome_of s p' = Pending \<and> rejected (outcome_of s' p') \<and> cache_of s' c' k' = None)"
          proof (cases "c' = c \<and> k' = k")
            case True
            with h ca have "p' = q" by simp
            with True oq q pe show ?thesis by (simp add: co outcome_of_def rejected_def)
          next
            case False
            with h show ?thesis by (auto simp: co)
          qed
        qed
        moreover have "wired s'" using w by (simp add: wired_def s')
        ultimately show ?thesis by simp
      qed
    next
      case (SLink x c k p)
      note org = shape_ofD(5)[OF SLink]
      from ok_promise_shape(2)[OF ok SLink] have c: "c < length (caches s)" by (simp add: link_ok_def)
      show ?thesis
      proof (cases "outcome_of s x")
        case Pending
        with f show ?thesis by (simp add: fire_then[OF q pe None org])
      next
        case (Fulfilled v)
        with f have "s' = settle q (Fulfilled v) s" by (simp add: fire_then[OF q pe None org])
        then show ?thesis by (rule plain)
      next
        case (Rejected e)
        define s0 where "s0 = s\<lparr>cells := cells s @ [now s], attempts := attempts s @ [(c, Some k, fn p)]\<rparr>"
        from f Rejected obtain r1 s1 where
          fd: "fetchDependentResultWith (resolve n env c) env c (Some k) (dependencies p) (fn p) s = Some (r1, s1)"
          and s': "s' = (case r1 of Inl e' \<Rightarrow> settle q (Rejected e') s1 | Inr r \<Rightarrow> follow q r s1)"
          by (auto simp: fire_then[OF q pe None org] resolvePath_def resolvePathWith_def
              split: option.splits sum.splits)
        note h = fetchDependentResultWith_good[OF resolve_good i c fd, folded s0_def]
        from fetchDependentResultWith_good2[OF resolve_good resolve_good2 i w c fd] obtain new where
          w1: "wired s1" and a1: "attempts s1 = attempts s @ (c, Some k, fn p) # new"
          and n1: "news c s new" by blast
        have cs0: "cache_of s0 = cache_of s" by (simp add: s0_def cache_of_def fun_eq_iff)
        have o': "orgs s' = orgs s1" by (cases r1) (simp_all add: s')
        have co: "cache_of s' = cache_of s1" by (cases r1) (simp_all add: s')
        have at: "attempts s' = attempts s1" by (cases r1) (simp_all add: s' settle_eq follow_eq)
        have sp: "spec s' = spec s1" by (cases r1) (simp_all add: s' settle_eq follow_eq)
        have "stays s s'"
        proof (rule staysI[where new = "(c, Some k, fn p) # new"])
          show "spec s' = spec s" using sp extD(4)[OF h(2)] by (simp add: s0_def)
          show "cache_of s' c' k' = Some p'" if "cache_of s c' k' = Some p'" for c' k' p'
            using ext_cache_keeps[OF h(2), of c' k' p'] that by (simp add: co cs0)
          show "attempts s' = attempts s @ (c, Some k, fn p) # new" using at a1 by simp
          show "fst a < length (caches s) \<and> (fst (snd a) = None \<or>
           (\<exists>k. fst (snd a) = Some k \<and>
              (cache_of s (fst a) k = None \<or>
               (\<exists>q<length (promises s). \<exists>x p. shape_of (origin (promises s ! q)) = SLink x (fst a) k p \<and>
                   outcome (promises s ! q) = Pending \<and> fn p = snd (snd a)))))"
            if "a \<in> set ((c, Some k, fn p) # new)" for a
          proof (cases "a = (c, Some k, fn p)")
            case True
            with q pe SLink c show ?thesis by auto
          next
            case False
            with that have "a \<in> set new" by simp
            with n1 c show ?thesis by (auto simp: news_def)
          qed
        qed
        moreover have "wired s'" using w1 o' by (simp add: wired_def)
        ultimately show ?thesis by simp
      qed
    next
      case (STask x g)
      from shape_ofD(6)[OF STask] obtain cell ds where
        org: "origin (promises s ! q) = ThenOf x (Some (DepsReady cell ds g)) None" by blast
      show ?thesis
      proof (cases "outcome_of s x")
        case Pending
        with f show ?thesis by (simp add: fire_then[OF q pe None org])
      next
        case (Rejected e)
        with f have "s' = settle q (Rejected e) s" by (simp add: fire_then[OF q pe None org])
        then show ?thesis by (rule plain)
      next
        case (Fulfilled v)
        let ?s1 = "snd (execute env g (depsObj ds (elements v)) (s\<lparr>cells := (cells s)[cell := now s]\<rparr>))"
        from f Fulfilled have s': "s' = follow q (Suc (length (promises s))) ?s1"
          by (simp add: fire_then[OF q pe None org] execute_eq)
        have o: "orgs s' = (orgs s @ [Producer]) @
            [ThenOf (length (promises s)) (Some (RecordOk g (now s))) (Some (RecordErr g))]"
          unfolding s' orgs_follow by (simp add: execute_eq orgs_def)
        have "wired_but (orgs s') {}"
          unfolding o using w by (intro wired_but_append) (simp_all add: wired_def nth_append)
        moreover have "stays s s'"
          by (rule stays_plain) (simp_all add: s' execute_eq, simp_all add: follow_eq cache_of_def fun_eq_iff)
        ultimately show ?thesis by (simp add: wired_def)
      qed
    next
      case (SEvent x)
      from shape_ofD(7)[OF SEvent] obtain nm ds rs cell where
        org: "origin (promises s ! q) = ThenOf x (Some (EmitTiming nm ds rs cell)) None" by blast
      show ?thesis
      proof (cases "outcome_of s x")
        case Pending
        with f show ?thesis by (simp add: fire_then[OF q pe None org])
      next
        case (Rejected e)
        with f have "s' = settle q (Rejected e) s" by (simp add: fire_then[OF q pe None org])
        then show ?thesis by (rule plain)
      next
        case (Fulfilled v)
        with f obtain em where "s' = settle q (Fulfilled v) (s\<lparr>emitted := em\<rparr>)"
          by (auto simp: fire_then[OF q pe None org] Let_def)
        then show ?thesis
          by (intro plain2[OF w]) (simp_all add: cache_of_frame, simp_all add: settle_eq)
      qed
    next
      case (SRecord x g)
      from shape_ofD(8)[OF SRecord] obtain t where
        org: "origin (promises s ! q) = ThenOf x (Some (RecordOk g t)) (Some (RecordErr g))" by blast
      from f have "\<exists>out st. s' = settle q out (s\<lparr>stats := st\<rparr>)"
        by (cases "outcome_of s x") (auto simp: fire_then[OF q pe None org])
      then obtain out st where "s' = settle q out (s\<lparr>stats := st\<rparr>)" by blast
      then show ?thesis
        by (intro plain2[OF w]) (simp_all add: cache_of_frame, simp_all add: settle_eq)
    next
      case SOther
      with ok show ?thesis by (simp add: ok_promise_def)
    qed
  qed
qed

lemma seed_wired:
  "wired s \<Longrightarrow> seed kvs (cache, s) = (cache', s') \<Longrightarrow>
   wired s' \<and> spec s' = spec s \<and> attempts s' = attempts s \<and> caches s' = caches s"
proof (induction kvs arbitrary: cache s)
  case Nil
  then show ?case by simp
next
  case (Cons kv kvs)
  obtain k v where kv: "kv = (k, v)" by (cases kv)
  let ?s1 = "s\<lparr>promises := promises s @ [\<lparr>origin = Made, outcome = Fulfilled v, follows = None\<rparr>]\<rparr>"
  have "wired_but (orgs s @ [Made]) {}"
    using Cons.prems(1) by (intro wired_but_append) (simp_all add: wired_def)
  then have w1: "wired ?s1" by (simp add: wired_def orgs_def)
  have sd: "seed kvs (cache(k \<mapsto> length (promises s)), ?s1) = (cache', s')"
    using Cons.prems(2) by (simp add: kv alloc_def)
  from Cons.IH[OF w1 sd] show ?case by simp
qed

lemma step_stays:
  assumes i: "inv s" and w: "wired s" and st: "step n env ev s = Some s'"
  shows "wired s' \<and> stays s s'"
proof (cases ev)
  case (NewScope initialData)
  obtain cache s1 where sd: "seed initialData (Map.empty, s) = (cache, s1)"
    by (cases "seed initialData (Map.empty, s)")
  with st NewScope have s': "s' = s1\<lparr>caches := caches s1 @ [cache]\<rparr>"
    by (simp add: Orchestration_def)
  note h = seed_wired[OF w sd]
  have "cache_of s' c k = Some p" if "cache_of s c k = Some p" for c k p
  proof -
    from that have "c < length (caches s)" by (auto simp: cache_of_def split: if_splits)
    with that h show ?thesis by (simp add: s' cache_of_def nth_append)
  qed
  then have "stays s s'"
    by (rule staysI[where new = "[]", rotated]) (use h in \<open>simp_all add: s'\<close>)
  moreover have "wired s'" using h by (simp add: s' wired_def)
  ultimately show ?thesis by simp
next
  case (Call c k)
  with st obtain r where c: "c < length (caches s)" and r: "resolve n env c k s = Some (r, s')"
    by (auto split: if_splits)
  note e = goodD(2)[OF resolve_good i c r]
  from good2D[OF resolve_good2 i w c r] obtain new where
    w': "wired s'" and a: "attempts s' = attempts s @ new" and nw: "news c s new" by blast
  have "stays s s'"
  proof (rule staysI[OF extD(4)[OF e] _ a])
    show "cache_of s' c' k' = Some p" if "cache_of s c' k' = Some p" for c' k' p
      using ext_cache_keeps[OF e that] .
  qed (use nw c in \<open>auto simp: news_def\<close>)
  with w' show ?thesis by simp
next
  case (Get c ks)
  with st obtain r where c: "c < length (caches s)" and r: "get n env c ks s = Some (r, s')"
    by (auto split: if_splits)
  let ?s = "s\<lparr>closures := Suc (closures s)\<rparr>"
  define s0 where "s0 = ?s\<lparr>cells := cells ?s @ [now ?s],
      attempts := attempts ?s @ [(c, None, Identity (closures s))]\<rparr>"
  have i0: "inv ?s" by (rule inv_frame[OF i]) simp_all
  have w0: "wired ?s" using w by (simp add: wired_def)
  have c0: "c < length (caches ?s)" using c by simp
  from r have fd: "fetchDependentResultWith (resolve n env c) env c None ks (Identity (closures s)) ?s
      = Some (r, s')"
    by (simp add: get_def fetchDependentResult_def)
  note h = fetchDependentResultWith_good[OF resolve_good i0 c0 fd, folded s0_def]
  from fetchDependentResultWith_good2[OF resolve_good resolve_good2 i0 w0 c0 fd] obtain new where
    w': "wired s'" and a: "attempts s' = attempts s @ (c, None, Identity (closures s)) # new"
    and nw: "news c ?s new" by auto
  have cs0: "cache_of s0 = cache_of s" by (simp add: s0_def cache_of_def fun_eq_iff)
  have cs1: "cache_of ?s = cache_of s" by (simp add: cache_of_def fun_eq_iff)
  have "stays s s'"
  proof (rule staysI[OF _ _ a])
    show "spec s' = spec s" using extD(4)[OF h(2)] by (simp add: s0_def)
    show "cache_of s' c' k' = Some p" if "cache_of s c' k' = Some p" for c' k' p
      using ext_cache_keeps[OF h(2), of c' k' p] that by (simp add: cs0)
  qed (use nw c cs1 in \<open>auto simp: news_def\<close>)
  with w' show ?thesis by simp
next
  case (Fire q)
  with st fire_stays[OF i w] show ?thesis by simp
next
  case (Settle p out)
  with st have s': "s' = settle p out s" by (auto split: if_splits)
  show ?thesis by (rule plain2[OF w]) (simp_all add: s', simp_all add: settle_eq)
next
  case (Tick d)
  with st have s': "s' = s\<lparr>now := now s + int d\<rparr>" by simp
  show ?thesis by (rule plain2[OF w]) (simp_all add: s' cache_of_frame)
qed

text \<open>A pending link of a chain for a key means the cache holds the pending promise of that
  chain.\<close>

lemma pending_link_cached:
  assumes i: "inv s" and w: "wired s"
  shows "q < length (promises s) \<Longrightarrow> shape_of (origin (promises s ! q)) = SLink x c k p \<Longrightarrow>
     outcome (promises s ! q) = Pending \<Longrightarrow>
     \<exists>g. cache_of s c k = Some g \<and> outcome_of s g = Pending"
proof (induction "length (promises s) - q" arbitrary: q x p rule: less_induct)
  case less
  from w less.prems(1) have "covered (orgs s) q" by (simp add: wired_def wired_but_def)
  with less.prems(1,2) obtain q' where q': "q' < length (promises s)" "q < q'"
    and sh: "(\<exists>p'. shape_of (origin (promises s ! q')) = SLink q c k p') \<or>
             shape_of (origin (promises s ! q')) = SGuard q c k"
    by (auto simp: covered_def)
  from i q' have ok: "ok_promise s q'" by (simp add: inv_def)
  have oq: "outcome_of s q = Pending" using less.prems by (simp add: outcome_of_def)
  from sh show ?case
  proof (elim disjE exE)
    fix p' assume l: "shape_of (origin (promises s ! q')) = SLink q c k p'"
    from ok_promise_shape(2)[OF ok l] have lk: "link_ok s q' q c k p'" by simp
    have pe: "outcome (promises s ! q') = Pending"
    proof (cases "outcome (promises s ! q')")
      case (Fulfilled v)
      with lk oq show ?thesis
        by (cases "follows (promises s ! q')") (auto simp: link_ok_def rejected_def)
    next
      case (Rejected e)
      with lk oq show ?thesis by (auto simp: link_ok_def rejected_def)
    qed simp
    have "length (promises s) - q' < length (promises s) - q" using q' by simp
    from less.hyps[OF this q'(1) l pe] show ?case .
  next
    assume g: "shape_of (origin (promises s ! q')) = SGuard q c k"
    from ok_promise_shape(1)[OF ok g] have gk: "guard_ok s q' q c k" by simp
    have "outcome (promises s ! q') = Pending"
      using gk oq by (cases "outcome (promises s ! q')") (auto simp: guard_ok_def mirrors_def)
    with gk q' show ?case by (auto simp: guard_ok_def outcome_of_def)
  qed
qed

lemma some_the: "x \<noteq> None \<Longrightarrow> x = Some (the x)"
  by simp

lemma Orchestrator_wired: "Orchestrator env rawspec t = Inr s \<Longrightarrow> wired s"
  by (auto simp: Orchestrator_def wired_def wired_but_def orgs_def split: sum.splits)

lemma exec_inv:
  "inv s \<Longrightarrow> wired s \<Longrightarrow> exec n env evs s = Some s' \<Longrightarrow> inv s' \<and> wired s' \<and> grows s s'"
proof (induction evs arbitrary: s)
  case Nil
  then show ?case by (simp add: grows_refl)
next
  case (Cons ev evs)
  from Cons.prems(3) obtain s1 where s1: "step n env ev s = Some s1" and e: "exec n env evs s1 = Some s'"
    by (auto split: option.splits)
  from step_inv[OF Cons.prems(1) s1] step_stays[OF Cons.prems(1,2) s1]
  have i1: "inv s1" and w1: "wired s1" and g1: "grows s s1" by (simp_all add: moves_def)
  from Cons.IH[OF i1 w1 e] g1 show ?case using grows_trans by blast
qed

lemma run_inv:
  assumes "run n env rawspec t evs = Some s"
  shows "inv s \<and> wired s"
proof -
  from assms obtain s0 where o: "Orchestrator env rawspec t = Inr s0" and e: "exec n env evs s0 = Some s"
    by (auto simp: run_def split: sum.splits)
  from exec_inv[OF Orchestrator_inv[OF o] Orchestrator_wired[OF o] e] show ?thesis by simp
qed

text \<open>A settled cache entry stays, and no path of its key is attempted again.\<close>

lemma entry_step:
  assumes i: "inv s" and w: "wired s" and st: "step n env ev s = Some s'"
    and ca: "cache_of s c k = Some p" and ne: "outcome_of s p \<noteq> Pending"
  shows "cache_of s' c k = Some p \<and> outcome_of s' p = outcome_of s p \<and>
     (\<exists>new. attempts s' = attempts s @ new \<and> (\<forall>a\<in>set new. \<not> (fst a = c \<and> fst (snd a) = Some k)))"
proof -
  from step_inv[OF i st] have g: "grows s s'" by (simp add: moves_def)
  from step_stays[OF i w st] have sy: "stays s s'" by simp
  from sy ca ne have 1: "cache_of s' c k = Some p" unfolding stays_def by blast
  from grows_outcome_of[OF g, of p] ne have 2: "outcome_of s' p = outcome_of s p" by simp
  from sy obtain new where a: "attempts s' = attempts s @ new"
    and n: "\<forall>a\<in>set new. fst a < length (caches s) \<and> (fst (snd a) = None \<or>
           (\<exists>k. fst (snd a) = Some k \<and>
              (cache_of s (fst a) k = None \<or>
               (\<exists>q<length (promises s). \<exists>x p. shape_of (origin (promises s ! q)) = SLink x (fst a) k p \<and>
                   outcome (promises s ! q) = Pending \<and> fn p = snd (snd a)))))"
    unfolding stays_def by blast
  have "\<not> (fst a = c \<and> fst (snd a) = Some k)" if "a \<in> set new" for a
  proof
    assume h: "fst a = c \<and> fst (snd a) = Some k"
    with n that ca obtain q x p' where "q < length (promises s)"
      "shape_of (origin (promises s ! q)) = SLink x c k p'" "outcome (promises s ! q) = Pending"
      by fastforce
    from pending_link_cached[OF i w this] ca ne show False by simp
  qed
  with 1 2 a show ?thesis by blast
qed

lemma entry_exec:
  "inv s \<Longrightarrow> wired s \<Longrightarrow> exec n env evs s = Some s' \<Longrightarrow>
   cache_of s c k = Some p \<Longrightarrow> outcome_of s p \<noteq> Pending \<Longrightarrow>
   cache_of s' c k = Some p \<and> outcome_of s' p = outcome_of s p \<and>
     (\<exists>new. attempts s' = attempts s @ new \<and> (\<forall>a\<in>set new. \<not> (fst a = c \<and> fst (snd a) = Some k)))"
proof (induction evs arbitrary: s)
  case Nil
  then show ?case by simp
next
  case (Cons ev evs)
  from Cons.prems(3) obtain s1 where s1: "step n env ev s = Some s1" and e: "exec n env evs s1 = Some s'"
    by (auto split: option.splits)
  from step_inv[OF Cons.prems(1) s1] step_stays[OF Cons.prems(1,2) s1]
  have i1: "inv s1" and w1: "wired s1" by simp_all
  from entry_step[OF Cons.prems(1,2) s1 Cons.prems(4,5)] obtain n1 where
    c1: "cache_of s1 c k = Some p" and o1: "outcome_of s1 p = outcome_of s p"
    and a1: "attempts s1 = attempts s @ n1" and f1: "\<forall>a\<in>set n1. \<not> (fst a = c \<and> fst (snd a) = Some k)"
    by blast
  from o1 Cons.prems(5) have "outcome_of s1 p \<noteq> Pending" by simp
  from Cons.IH[OF i1 w1 e c1 this] obtain n2 where
    c2: "cache_of s' c k = Some p" and o2: "outcome_of s' p = outcome_of s1 p"
    and a2: "attempts s' = attempts s1 @ n2" and f2: "\<forall>a\<in>set n2. \<not> (fst a = c \<and> fst (snd a) = Some k)"
    by blast
  from a1 a2 f1 f2 have "attempts s' = attempts s @ (n1 @ n2) \<and>
      (\<forall>a\<in>set (n1 @ n2). \<not> (fst a = c \<and> fst (snd a) = Some k))" by auto
  with c2 o1 o2 show ?case by (metis (no_types, lifting))
qed

text \<open>The chain of a key.\<close>

lemma chained_mono:
  "chained s c k x ps y \<Longrightarrow> grows s s' \<Longrightarrow> chained s' c k x ps y"
proof (induction ps arbitrary: y)
  case Nil
  then show ?case by simp
next
  case (Cons p ps)
  from Cons.prems(1) have y: "y < length (promises s)" by simp
  with Cons.prems(2) have o: "origin (promises s' ! y) = origin (promises s ! y)"
    and l: "y < length (promises s')" by (auto simp: grows_def)
  from Cons show ?case by (simp add: o l)
qed

lemma chainPaths_chained:
  "chained s c k x rps y \<Longrightarrow> y < length (promises s) \<Longrightarrow> chainPaths c k cps (y, s) = (y', s') \<Longrightarrow>
   chained s' c k x (rev (map path cps) @ rps) y' \<and> y' < length (promises s') \<and>
   length (promises s) \<le> length (promises s') \<and>
   (\<forall>q<length (promises s). promises s' ! q = promises s ! q) \<and> attempts s' = attempts s"
proof (induction cps arbitrary: y s rps)
  case Nil
  then show ?case by simp
next
  case (Cons cp cps)
  let ?s1 = "s\<lparr>promises := promises s @
      [\<lparr>origin = ThenOf y None (Some (NextPath c k (path cp))), outcome = Pending, follows = None\<rparr>]\<rparr>"
  from Cons.prems(3) have ch: "chainPaths c k cps (length (promises s), ?s1) = (y', s')"
    by (simp add: then_p_eq)
  have "chained ?s1 c k x rps y"
    by (rule chained_mono[OF Cons.prems(1)]) (rule grows_append)
  with Cons.prems(2) have c1: "chained ?s1 c k x (path cp # rps) (length (promises s))"
    by simp
  have l1: "length (promises s) < length (promises ?s1)" by simp
  from Cons.IH[OF c1 l1 ch] show ?case by (auto simp: nth_append)
qed

lemma chained_rejected:
  "inv s \<Longrightarrow> chained s c k x ps y \<Longrightarrow> rejected (outcome_of s y) \<Longrightarrow>
   rejected (outcome_of s x) \<and> (\<forall>p\<in>set ps. (c, Some k, fn p) \<in> set (attempts s))"
proof (induction ps arbitrary: y)
  case Nil
  then show ?case by simp
next
  case (Cons p ps)
  let ?z = "parent (origin (promises s ! y))"
  from Cons.prems(2) have y: "y < length (promises s)"
    and o: "origin (promises s ! y) = ThenOf ?z None (Some (NextPath c k p))"
    and ch: "chained s c k x ps ?z" by simp_all
  from Cons.prems(1) y have "ok_promise s y" by (simp add: inv_def)
  moreover from o have "shape_of (origin (promises s ! y)) = SLink ?z c k p"
    by (metis shape_of_simps(5))
  ultimately have lk: "link_ok s y ?z c k p" by (simp add: ok_promise_def)
  from Cons.prems(3) y have "rejected (outcome (promises s ! y))" by (simp add: outcome_of_def)
  with lk have r: "rejected (outcome_of s ?z)" and a: "(c, Some k, fn p) \<in> set (attempts s)"
    by (simp_all add: link_ok_def)
  from Cons.IH[OF Cons.prems(1) ch r] a show ?case by simp
qed

text \<open>What \<open>resolve\<close> does for a key with paths that is not in the cache.\<close>

lemma resolve_miss:
  assumes i: "inv s" and w: "wired s" and c: "c < length (caches s)"
    and n: "cache_of s c k = None" and sp: "spec s k = Some ps"
    and r: "resolve (Suc m) env c k s = Some (Inr g, s')"
  shows "\<exists>cp cps new first y.
     getPrioritizedPaths m (spec s) (stats s) (cache_of s c) k = Some (Inr (cp # cps)) \<and>
     attempts s' = attempts s @ (c, Some k, fn (path cp)) # new \<and> news c s new \<and>
     is_attempt s' first (Some k) (dependencies (path cp)) \<and>
     chained s' c k first (rev (map path cps)) y \<and>
     g < length (promises s') \<and> length (promises s) \<le> g \<and>
     promises s' ! g = \<lparr>origin = ThenOf y None (Some (Evict c k)), outcome = Pending, follows = None\<rparr> \<and>
     cache_of s' c k = Some g \<and> inv s' \<and> wired s'"
proof -
  from n sp r obtain y s1 where
    f: "fetchResultWith (resolve m env c) m env c k s = Some (Inr y, s1)"
    and g: "g = length (promises s1)"
    and s': "s' = (snd (then_p y None (Some (Evict c k)) s1))
              \<lparr>caches := (caches s1)[c := (cache_of s1 c)(k \<mapsto> length (promises s1))]\<rparr>"
    by (auto simp: then_p_eq split: option.splits sum.splits)
  from f obtain cp cps where
    gp: "getPrioritizedPaths m (spec s) (stats s) (cache_of s c) k = Some (Inr (cp # cps))"
    by (auto simp: fetchResultWith_def split: option.splits sum.splits list.splits)
  with f obtain first s0 where
    fd: "fetchDependentResultWith (resolve m env c) env c (Some k) (dependencies (path cp)) (fn (path cp)) s
           = Some (Inr first, s0)"
    and ch: "chainPaths c k cps (first, s0) = (y, s1)"
    by (auto simp: fetchResultWith_def resolvePathWith_def split: option.splits sum.splits prod.splits)
  note h = fetchDependentResultWith_good[OF resolve_good i c fd]
  from fetchDependentResultWith_good2[OF resolve_good resolve_good2 i w c fd] obtain new where
    a0: "attempts s0 = attempts s @ (c, Some k, fn (path cp)) # new" and nw: "news c s new" by blast
  have fl: "first < length (promises s0)" using h(3) by simp
  have ia: "is_attempt s0 first (Some k) (dependencies (path cp))" using h(5) by simp
  from chainPaths_chained[of s0 c k first "[]" first cps y s1, OF _ fl ch]
  have c1: "chained s1 c k first (rev (map path cps)) y" and y1: "y < length (promises s1)"
    and l1: "length (promises s0) \<le> length (promises s1)"
    and p1: "\<forall>q<length (promises s0). promises s1 ! q = promises s0 ! q"
    and a1: "attempts s1 = attempts s0" by simp_all
  have g1: "grows s1 s'" by (simp add: s' then_p_eq grows_def nth_append)
  have "is_attempt s1 first (Some k) (dependencies (path cp))"
    using ia p1 l1 fl by (auto simp: is_attempt_def)
  then have 1: "is_attempt s' first (Some k) (dependencies (path cp))"
    using grows_is_attempt[OF g1] by simp
  have 2: "chained s' c k first (rev (map path cps)) y" by (rule chained_mono[OF c1 g1])
  have 3: "promises s' ! g = \<lparr>origin = ThenOf y None (Some (Evict c k)), outcome = Pending, follows = None\<rparr>"
    "g < length (promises s')" by (simp_all add: s' g then_p_eq)
  have ls: "length (promises s) \<le> length (promises s0)" using extD(1)[OF h(2)] by simp
  have 4: "length (promises s) \<le> g" using ls l1 by (simp add: g)
  have c1': "c < length (caches s1)"
    using extD(8)[OF goodD(2)[OF resolve_good i c r]] c by (simp add: s' then_p_eq)
  have 5: "cache_of s' c k = Some g" using c1' by (simp add: s' g then_p_eq cache_of_def)
  have 6: "attempts s' = attempts s @ (c, Some k, fn (path cp)) # new"
    using a0 a1 by (simp add: s' then_p_eq)
  from goodD(1)[OF resolve_good i c r] good2D(1)[OF resolve_good2 i w c r]
  have 7: "inv s'" "wired s'" by simp_all
  from gp 6 nw 1 2 3 4 5 7 show ?thesis by blast
qed

lemma cached_not_rejected:
  assumes i: "inv s" and ca: "cache_of s c k = Some p"
  shows "\<not> rejected (outcome_of s p)"
proof -
  from ca have c: "c < length (caches s)" and e: "(caches s ! c) k = Some p"
    by (auto simp: cache_of_def split: if_splits)
  with i have p: "p < length (promises s)"
    and d: "(origin (promises s ! p) = Made \<and> fulfilled (outcome (promises s ! p))) \<or>
            (\<exists>x. origin (promises s ! p) = ThenOf x None (Some (Evict c k)))"
    unfolding inv_def cache_ok_def by blast+
  from d show ?thesis
  proof (elim disjE exE conjE)
    assume "fulfilled (outcome (promises s ! p))"
    with p show ?thesis by (auto simp: outcome_of_def fulfilled_def rejected_def)
  next
    fix x assume "origin (promises s ! p) = ThenOf x None (Some (Evict c k))"
    then have "shape_of (origin (promises s ! p)) = SGuard x c k" by simp
    moreover from i p have "ok_promise s p" by (simp add: inv_def)
    ultimately have "guard_ok s p x c k" by (simp add: ok_promise_def)
    with ca p show ?thesis by (auto simp: guard_ok_def outcome_of_def)
  qed
qed

section \<open>One chain for each key of a scope\<close>

text \<open>
  C1. In every state the orchestrator reaches, for every key \<open>k\<close> of a scope \<open>c\<close>: a promise in
  the cache is not rejected, and \<open>resolve\<close> returns that very promise and leaves the state as it
  is, so no producer runs for the second call; every pending promise of a \<open>catch\<close> of
  \<open>resolve\<close> for \<open>k\<close> is the cache entry of \<open>k\<close>, and a pending \<open>catch\<close> of \<open>fetchResult\<close> for
  \<open>k\<close> means the cache holds a pending promise for \<open>k\<close>, so at most one chain for \<open>k\<close> is in
  flight; an event never replaces a cache entry, it can only remove a pending one that it
  rejects; and once the entry is settled it stays with its outcome for all further events,
  and no path of \<open>k\<close> is attempted in the scope again.
\<close>

theorem one_chain_per_key:
  assumes r: "run n env rawspec t evs = Some s"
  shows "(\<forall>c k p. cache_of s c k = Some p \<longrightarrow>
            \<not> rejected (outcome_of s p) \<and> (\<forall>m. resolve (Suc m) env c k s = Some (Inr p, s))) \<and>
         (\<forall>q x c k. q < length (promises s) \<and> outcome (promises s ! q) = Pending \<and>
            origin (promises s ! q) = ThenOf x None (Some (Evict c k)) \<longrightarrow> cache_of s c k = Some q) \<and>
         (\<forall>q x c k p. q < length (promises s) \<and> outcome (promises s ! q) = Pending \<and>
            origin (promises s ! q) = ThenOf x None (Some (NextPath c k p)) \<longrightarrow>
            (\<exists>g. cache_of s c k = Some g \<and> outcome_of s g = Pending)) \<and>
         (\<forall>ev s' c k p. step n env ev s = Some s' \<and> cache_of s c k = Some p \<longrightarrow>
            cache_of s' c k = Some p \<or>
            (outcome_of s p = Pending \<and> rejected (outcome_of s' p) \<and> cache_of s' c k = None)) \<and>
         (\<forall>evs' s' c k p. exec n env evs' s = Some s' \<and> cache_of s c k = Some p \<and>
            outcome_of s p \<noteq> Pending \<longrightarrow>
            cache_of s' c k = Some p \<and> outcome_of s' p = outcome_of s p \<and>
            (\<exists>new. attempts s' = attempts s @ new \<and>
               (\<forall>a\<in>set new. \<not> (fst a = c \<and> fst (snd a) = Some k))))"
proof -
  from run_inv[OF r] have i: "inv s" and w: "wired s" by simp_all
  have 1: "\<forall>c k p. cache_of s c k = Some p \<longrightarrow>
            \<not> rejected (outcome_of s p) \<and> (\<forall>m. resolve (Suc m) env c k s = Some (Inr p, s))"
    using cached_not_rejected[OF i] by simp
  have 2: "\<forall>q x c k. q < length (promises s) \<and> outcome (promises s ! q) = Pending \<and>
            origin (promises s ! q) = ThenOf x None (Some (Evict c k)) \<longrightarrow> cache_of s c k = Some q"
  proof (intro allI impI, elim conjE)
    fix q x c k
    assume h: "q < length (promises s)" "outcome (promises s ! q) = Pending"
      "origin (promises s ! q) = ThenOf x None (Some (Evict c k))"
    from h(3) have "shape_of (origin (promises s ! q)) = SGuard x c k" by simp
    moreover from i h(1) have "ok_promise s q" by (simp add: inv_def)
    ultimately have "guard_ok s q x c k" by (simp add: ok_promise_def)
    with h(2) show "cache_of s c k = Some q" by (simp add: guard_ok_def)
  qed
  have 3: "\<forall>q x c k p. q < length (promises s) \<and> outcome (promises s ! q) = Pending \<and>
            origin (promises s ! q) = ThenOf x None (Some (NextPath c k p)) \<longrightarrow>
            (\<exists>g. cache_of s c k = Some g \<and> outcome_of s g = Pending)"
  proof (intro allI impI, elim conjE)
    fix q x c k p
    assume h: "q < length (promises s)" "outcome (promises s ! q) = Pending"
      "origin (promises s ! q) = ThenOf x None (Some (NextPath c k p))"
    from h(3) have "shape_of (origin (promises s ! q)) = SLink x c k p" by simp
    from pending_link_cached[OF i w h(1) this h(2)]
    show "\<exists>g. cache_of s c k = Some g \<and> outcome_of s g = Pending" .
  qed
  have 4: "\<forall>ev s' c k p. step n env ev s = Some s' \<and> cache_of s c k = Some p \<longrightarrow>
            cache_of s' c k = Some p \<or>
            (outcome_of s p = Pending \<and> rejected (outcome_of s' p) \<and> cache_of s' c k = None)"
  proof (intro allI impI, elim conjE)
    fix ev s' c k p
    assume h: "step n env ev s = Some s'" "cache_of s c k = Some p"
    from step_stays[OF i w h(1)] h(2)
    show "cache_of s' c k = Some p \<or>
            (outcome_of s p = Pending \<and> rejected (outcome_of s' p) \<and> cache_of s' c k = None)"
      unfolding stays_def by blast
  qed
  have 5: "\<forall>evs' s' c k p. exec n env evs' s = Some s' \<and> cache_of s c k = Some p \<and>
            outcome_of s p \<noteq> Pending \<longrightarrow>
            cache_of s' c k = Some p \<and> outcome_of s' p = outcome_of s p \<and>
            (\<exists>new. attempts s' = attempts s @ new \<and>
               (\<forall>a\<in>set new. \<not> (fst a = c \<and> fst (snd a) = Some k)))"
  proof (intro allI impI, elim conjE)
    fix evs' s' c k p
    assume h: "exec n env evs' s = Some s'" "cache_of s c k = Some p" "outcome_of s p \<noteq> Pending"
    from entry_exec[OF i w h]
    show "cache_of s' c k = Some p \<and> outcome_of s' p = outcome_of s p \<and>
            (\<exists>new. attempts s' = attempts s @ new \<and>
               (\<forall>a\<in>set new. \<not> (fst a = c \<and> fst (snd a) = Some k)))" .
  qed
  show ?thesis by (intro conjI) (rule 1 2 3 4 5)+
qed

lemma example_run_eq: "run 10 example_env example_single 0 [NewScope [], Call 0 ''b''] = Some example_run"
  unfolding example_run_def by (rule some_the) code_simp

lemma example_run_cache: "cache_of example_run 0 ''a'' = Some 3" "outcome_of example_run 3 = Pending"
  by code_simp+

theorem one_chain_per_key_witness:
  "cache_of example_run 0 ''a'' = Some 3 \<and>
   resolve (Suc 0) example_env 0 ''a'' example_run = Some (Inr 3, example_run) \<and>
   \<not> rejected (outcome_of example_run 3)"
  using one_chain_per_key[OF example_run_eq, THEN conjunct1, rule_format, OF example_run_cache(1)]
    example_run_cache(1) by simp

section \<open>A key whose paths have all failed\<close>

text \<open>
  C3. In every state the orchestrator reaches, for the promise \<open>q\<close> that \<open>resolve\<close> made for the
  key \<open>k\<close> of the scope \<open>c\<close> as the \<open>catch\<close> on the chain \<open>x\<close> of \<open>fetchResult\<close>: while \<open>q\<close> is
  pending it is the cache entry of \<open>k\<close>; when the chain is rejected, which for a \<open>catch\<close> of
  \<open>fetchResult\<close> means that the chain before it was rejected, that its path was attempted and
  that its error is the error of that attempt, the handler of \<open>q\<close> runs, removes the entry of
  \<open>k\<close> from the cache and rejects \<open>q\<close> with the error of the chain; a rejected \<open>q\<close> carries the
  error of the chain and is not in the cache; and with no entry for \<open>k\<close> in the cache,
  \<open>resolve\<close> returns a new promise and attempts the cheapest path of \<open>k\<close> again.
\<close>

theorem exhausted_paths_evict:
  assumes r: "run n env rawspec t evs = Some s"
    and q: "q < length (promises s)"
    and o: "origin (promises s ! q) = ThenOf x None (Some (Evict c k))"
  shows "(outcome (promises s ! q) = Pending \<longrightarrow> cache_of s c k = Some q) \<and>
     (\<forall>e. outcome (promises s ! q) = Pending \<and> outcome_of s x = Rejected e \<longrightarrow>
        (\<exists>s'. fire n env q s = Some s' \<and> outcome_of s' q = Rejected e \<and> cache_of s' c k = None \<and>
              calls s' = calls s \<and> attempts s' = attempts s)) \<and>
     (\<forall>e. outcome (promises s ! q) = Rejected e \<longrightarrow>
        outcome_of s x = Rejected e \<and> cache_of s c k \<noteq> Some q) \<and>
     (\<forall>y p. origin (promises s ! x) = ThenOf y None (Some (NextPath c k p)) \<and> rejected (outcome_of s x) \<longrightarrow>
        rejected (outcome_of s y) \<and> (c, Some k, fn p) \<in> set (attempts s) \<and>
        (\<forall>a. follows (promises s ! x) = Some a \<longrightarrow>
           is_attempt s a (Some k) (dependencies p) \<and> outcome_of s x = outcome_of s a)) \<and>
     (\<forall>m g s2. cache_of s c k = None \<and> spec s k \<noteq> None \<and>
        resolve (Suc m) env c k s = Some (Inr g, s2) \<longrightarrow>
        length (promises s) \<le> g \<and> cache_of s2 c k = Some g \<and>
        (\<exists>cp cps new. getPrioritizedPaths m (spec s) (stats s) (cache_of s c) k = Some (Inr (cp # cps)) \<and>
           attempts s2 = attempts s @ (c, Some k, fn (path cp)) # new))"
proof -
  from run_inv[OF r] have i: "inv s" and w: "wired s" by simp_all
  from o have sh: "shape_of (origin (promises s ! q)) = SGuard x c k" by simp
  from i q have "ok_promise s q" by (simp add: inv_def)
  with sh have xq: "x < q" and gk: "guard_ok s q x c k" by (simp_all add: ok_promise_def)
  from gk have c: "c < length (caches s)" and fl: "follows (promises s ! q) = None"
    by (simp_all add: guard_ok_def mirrors_def)
  have 1: "outcome (promises s ! q) = Pending \<longrightarrow> cache_of s c k = Some q"
    using gk by (simp add: guard_ok_def)
  have 2: "\<exists>s'. fire n env q s = Some s' \<and> outcome_of s' q = Rejected e \<and> cache_of s' c k = None \<and>
              calls s' = calls s \<and> attempts s' = attempts s"
    if "outcome (promises s ! q) = Pending" "outcome_of s x = Rejected e" for e
  proof -
    let ?s' = "settle q (Rejected e) (s\<lparr>caches := (caches s)[c := (cache_of s c)(k := None)]\<rparr>)"
    have "fire n env q s = Some ?s'" using that by (simp add: fire_then[OF q that(1) fl o])
    moreover have "outcome_of ?s' q = Rejected e" using q by (simp add: outcome_of_settle)
    moreover have "cache_of ?s' c k = None" using c by (simp add: cache_of_update)
    moreover have "calls ?s' = calls s" "attempts ?s' = attempts s" by (simp_all add: settle_eq)
    ultimately show ?thesis by blast
  qed
  have 3: "outcome_of s x = Rejected e \<and> cache_of s c k \<noteq> Some q"
    if "outcome (promises s ! q) = Rejected e" for e
    using gk that by (auto simp: guard_ok_def mirrors_def rejected_def)
  have 4: "rejected (outcome_of s y) \<and> (c, Some k, fn p) \<in> set (attempts s) \<and>
        (\<forall>a. follows (promises s ! x) = Some a \<longrightarrow>
           is_attempt s a (Some k) (dependencies p) \<and> outcome_of s x = outcome_of s a)"
    if "origin (promises s ! x) = ThenOf y None (Some (NextPath c k p))" "rejected (outcome_of s x)" for y p
  proof -
    from xq q have x: "x < length (promises s)" by simp
    with i have "ok_promise s x" by (simp add: inv_def)
    moreover from that(1) have "shape_of (origin (promises s ! x)) = SLink y c k p" by simp
    ultimately have lk: "link_ok s x y c k p" by (simp add: ok_promise_def)
    from that(2) x have rx: "rejected (outcome (promises s ! x))" by (simp add: outcome_of_def)
    then have "outcome (promises s ! x) \<noteq> Pending" by (auto simp: rejected_def)
    with lk rx x show ?thesis by (simp add: link_ok_def outcome_of_def)
  qed
  have 5: "length (promises s) \<le> g \<and> cache_of s2 c k = Some g \<and>
        (\<exists>cp cps new. getPrioritizedPaths m (spec s) (stats s) (cache_of s c) k = Some (Inr (cp # cps)) \<and>
           attempts s2 = attempts s @ (c, Some k, fn (path cp)) # new)"
    if "cache_of s c k = None" "spec s k \<noteq> None" "resolve (Suc m) env c k s = Some (Inr g, s2)" for m g s2
  proof -
    from that(2) obtain ps where "spec s k = Some ps" by blast
    from resolve_miss[OF i w c that(1) this that(3)] show ?thesis by blast
  qed
  from 1 2 3 4 5 show ?thesis by blast
qed

lemma failed_run_eq:
  "run 10 failing_env failing_spec 0 [NewScope [], Call 0 ''k'', Fire 1, Fire 2] = Some failed_run"
  unfolding failed_run_def by (rule some_the) code_simp

lemma failed_run_facts:
  "3 < length (promises failed_run)"
  "origin (promises failed_run ! 3) = ThenOf 2 None (Some (Evict 0 ''k''))"
  "outcome (promises failed_run ! 3) = Pending"
  "outcome_of failed_run 2 = Rejected (Failure (Num 1))"
  by code_simp+

theorem exhausted_paths_evict_witness:
  "cache_of failed_run 0 ''k'' = Some 3 \<and>
   (\<exists>s'. fire 10 failing_env 3 failed_run = Some s' \<and> outcome_of s' 3 = Rejected (Failure (Num 1)) \<and>
      cache_of s' 0 ''k'' = None \<and> calls s' = calls failed_run \<and> attempts s' = attempts failed_run)"
  using exhausted_paths_evict[OF failed_run_eq failed_run_facts(1,2)] failed_run_facts(3,4) by simp

section \<open>Failed attempts of a producer\<close>

lemma event_needs_success:
  assumes i: "inv s" and w: "wired s" and e: "E < length (promises s)"
    and o: "origin (promises s ! E) = ThenOf y (Some (EmitTiming nm ds rs cell)) None"
    and f: "fulfilled (outcome (promises s ! E))"
  shows "\<exists>r x g t0. (r = y \<or> follows (promises s ! y) = Some r) \<and> r < length (promises s) \<and>
           origin (promises s ! r) = ThenOf x (Some (RecordOk g t0)) (Some (RecordErr g)) \<and>
           origin (promises s ! x) = Producer \<and> outcome_of s x = outcome (promises s ! E)"
proof -
  from o have sh: "shape_of (origin (promises s ! E)) = SEvent y" by simp
  from i e have "ok_promise s E" by (simp add: inv_def)
  with sh have yE: "y < E" and m: "mirrors s E y" by (simp_all add: ok_promise_def)
  from f have ne: "outcome (promises s ! E) \<noteq> Pending" by (auto simp: fulfilled_def)
  with m have oy: "outcome_of s y = outcome (promises s ! E)" by (simp add: mirrors_def)
  from yE e have y: "y < length (promises s)" by simp
  with i have oky: "ok_promise s y" by (simp add: inv_def)
  from w e have "sourced (orgs s) E" by (simp add: wired_def wired_but_def)
  with sh e y have "\<exists>z g. shape_of (origin (promises s ! y)) = SRecord z g \<or>
      shape_of (origin (promises s ! y)) = STask z g"
    by (auto simp: sourced_def)
  then obtain z g where d: "shape_of (origin (promises s ! y)) = SRecord z g \<or>
      shape_of (origin (promises s ! y)) = STask z g" by blast
  have rec: "\<exists>x t0. origin (promises s ! r) = ThenOf x (Some (RecordOk g' t0)) (Some (RecordErr g')) \<and>
           origin (promises s ! x) = Producer \<and> outcome_of s x = outcome (promises s ! E)"
    if r: "r < length (promises s)" and sr: "shape_of (origin (promises s ! r)) = SRecord x' g'"
      and orr: "outcome_of s r = outcome (promises s ! E)" for r x' g'
  proof -
    from i r have "ok_promise s r" by (simp add: inv_def)
    with sr have mr: "mirrors s r x'" and px: "origin (promises s ! x') = Producer"
      by (simp_all add: ok_promise_def)
    from orr ne r have "outcome (promises s ! r) \<noteq> Pending" by (simp add: outcome_of_def)
    with mr orr r have "outcome_of s x' = outcome (promises s ! E)"
      by (simp add: mirrors_def outcome_of_def)
    with shape_ofD(8)[OF sr] px show ?thesis by blast
  qed
  from d show ?thesis
  proof
    assume sr: "shape_of (origin (promises s ! y)) = SRecord z g"
    from rec[OF y sr oy] y show ?thesis by blast
  next
    assume st: "shape_of (origin (promises s ! y)) = STask z g"
    with oky have tk: "task_ok s y z g" by (simp add: ok_promise_def)
    from oy f y have fy: "fulfilled (outcome (promises s ! y))" by (simp add: outcome_of_def)
    with tk obtain r where fr: "follows (promises s ! y) = Some r"
      by (cases "follows (promises s ! y)") (auto simp: task_ok_def)
    from fy have "outcome (promises s ! y) \<noteq> Pending" by (auto simp: fulfilled_def)
    with tk fr have ir: "is_record s r g" and orr: "outcome (promises s ! y) = outcome_of s r"
      by (simp_all add: task_ok_def)
    from ir obtain x' t' where r: "r < length (promises s)"
      and "origin (promises s ! r) = ThenOf x' (Some (RecordOk g t')) (Some (RecordErr g))"
      by (auto simp: is_record_def)
    then have sr: "shape_of (origin (promises s ! r)) = SRecord x' g" by simp
    from orr oy y have "outcome_of s r = outcome (promises s ! E)" by (simp add: outcome_of_def)
    from rec[OF r sr this] fr r show ?thesis by blast
  qed
qed


lemma failing_run_eq:
  "run 10 failing_env failing_spec 0 [NewScope [], Call 0 ''k''] = Some failing_run"
  unfolding failing_run_def by (rule some_the) code_simp

lemma failing_run_facts:
  "1 < length (promises failing_run)"
  "origin (promises failing_run ! 1) = ThenOf 0 (Some (RecordOk (Wrapped ''k'' 0) 0)) (Some (RecordErr (Wrapped ''k'' 0)))"
  "outcome (promises failing_run ! 1) = Pending"
  "outcome_of failing_run 0 = Rejected (Failure (Num 1))"
  by code_simp+


section \<open>Seed values\<close>

lemma seed_value:
  "seed kvs (cache, s) = (cache', s') \<Longrightarrow>
   length (promises s) \<le> length (promises s') \<and>
   (\<forall>q<length (promises s). promises s' ! q = promises s ! q) \<and>
   (case map_of (rev kvs) k of
      Some v \<Rightarrow> \<exists>p. cache' k = Some p \<and> length (promises s) \<le> p \<and> p < length (promises s') \<and>
                  promises s' ! p = \<lparr>origin = Made, outcome = Fulfilled v, follows = None\<rparr>
    | None \<Rightarrow> cache' k = cache k)"
proof (induction kvs arbitrary: cache s)
  case Nil
  then show ?case by simp
next
  case (Cons kv kvs)
  obtain k0 v0 where kv: "kv = (k0, v0)" by (cases kv)
  let ?pr = "\<lparr>origin = Made, outcome = Fulfilled v0, follows = None\<rparr>"
  let ?s1 = "s\<lparr>promises := promises s @ [?pr]\<rparr>"
  have sd: "seed kvs (cache(k0 \<mapsto> length (promises s)), ?s1) = (cache', s')"
    using Cons.prems by (simp add: kv alloc_def)
  note h = Cons.IH[OF sd]
  from h have l: "Suc (length (promises s)) \<le> length (promises s')"
    and same: "\<forall>q<Suc (length (promises s)). promises s' ! q = promises ?s1 ! q" by simp_all
  have a: "\<forall>q<length (promises s). promises s' ! q = promises s ! q"
    using same by (simp add: nth_append)
  have b: "promises s' ! length (promises s) = ?pr" using same by (simp add: nth_append)
  have m: "map_of (rev (kv # kvs)) k =
      (case map_of (rev kvs) k of Some v \<Rightarrow> Some v | None \<Rightarrow> if k = k0 then Some v0 else None)"
    by (simp add: kv map_add_def split: option.splits)
  show ?case
  proof (cases "map_of (rev kvs) k")
    case (Some v)
    with h obtain p where "cache' k = Some p" "Suc (length (promises s)) \<le> p" "p < length (promises s')"
      "promises s' ! p = \<lparr>origin = Made, outcome = Fulfilled v, follows = None\<rparr>" by auto
    with Some l a show ?thesis by (auto simp: kv map_add_def)
  next
    case None
    with h have ck: "cache' k = (cache(k0 \<mapsto> length (promises s))) k" by simp
    show ?thesis
    proof (cases "k = k0")
      case True
      with None ck b l a show ?thesis by (auto simp: kv map_add_def)
    next
      case False
      with None ck l a show ?thesis by (auto simp: kv map_add_def)
    qed
  qed
qed

lemma exec_scoped:
  "inv s \<Longrightarrow> wired s \<Longrightarrow> \<forall>a\<in>set (attempts s). fst a < length (caches s) \<Longrightarrow>
   exec n env evs s = Some s' \<Longrightarrow> \<forall>a\<in>set (attempts s'). fst a < length (caches s')"
proof (induction evs arbitrary: s)
  case Nil
  then show ?case by simp
next
  case (Cons ev evs)
  from Cons.prems(4) obtain s1 where s1: "step n env ev s = Some s1" and e: "exec n env evs s1 = Some s'"
    by (auto split: option.splits)
  from step_inv[OF Cons.prems(1) s1] step_stays[OF Cons.prems(1,2) s1]
  have i1: "inv s1" and w1: "wired s1" and g: "grows s s1" and sy: "stays s s1"
    by (simp_all add: moves_def)
  from g have l: "length (caches s) \<le> length (caches s1)" by (simp add: grows_def)
  from sy obtain new where a: "attempts s1 = attempts s @ new"
    and nw: "\<forall>a\<in>set new. fst a < length (caches s)" unfolding stays_def by blast
  have "\<forall>a\<in>set (attempts s1). fst a < length (caches s1)"
    using Cons.prems(3) a nw l by fastforce
  from Cons.IH[OF i1 w1 this e] show ?case .
qed

lemma run_scoped:
  assumes "run n env rawspec t evs = Some s"
  shows "\<forall>a\<in>set (attempts s). fst a < length (caches s)"
proof -
  from assms obtain s0 where o: "Orchestrator env rawspec t = Inr s0" and e: "exec n env evs s0 = Some s"
    by (auto simp: run_def split: sum.splits)
  from o have "\<forall>a\<in>set (attempts s0). fst a < length (caches s0)"
    by (auto simp: Orchestrator_def split: sum.splits)
  from exec_scoped[OF Orchestrator_inv[OF o] Orchestrator_wired[OF o] this e] show ?thesis .
qed

text \<open>
  C5. From any state the orchestrator reaches, a scope \<open>c\<close> is created with seed values that
  give \<open>v\<close> for the key \<open>k\<close>, whatever the specification says about \<open>k\<close>. Creating the scope
  calls no producer and records no cost; the cache of the scope holds for \<open>k\<close> a promise made
  fulfilled with \<open>v\<close>; and after any further events the cache holds that same promise for \<open>k\<close>,
  still fulfilled with \<open>v\<close>, and no path of \<open>k\<close> has been attempted in the scope.
\<close>

theorem seeded_key_never_produced:
  assumes r: "run n env rawspec t evs = Some s"
    and o: "Orchestration initialData s = (c, s1)"
    and v: "map_of (rev initialData) k = Some v"
    and e: "exec n env evs' s1 = Some s2"
  shows "stats s1 = stats s \<and> calls s1 = calls s \<and> attempts s1 = attempts s \<and>
     (\<exists>p. cache_of s1 c k = Some p \<and> cache_of s2 c k = Some p \<and> p < length (promises s2) \<and>
          origin (promises s2 ! p) = Made \<and> outcome_of s1 p = Fulfilled v \<and>
          outcome_of s2 p = Fulfilled v) \<and>
     (\<forall>f. (c, Some k, f) \<notin> set (attempts s2))"
proof -
  from run_inv[OF r] have i: "inv s" and w: "wired s" by simp_all
  from Orchestration_inv[OF i o] have i1: "inv s1" and c: "c = length (caches s)"
    and fr: "stats s1 = stats s" "calls s1 = calls s" "attempts s1 = attempts s" by simp_all
  have "step n env (NewScope initialData) s = Some s1" using o by simp
  from step_stays[OF i w this] have w1: "wired s1" by simp
  obtain cache s0 where sd: "seed initialData (Map.empty, s) = (cache, s0)"
    by (cases "seed initialData (Map.empty, s)")
  with o have s1: "s1 = s0\<lparr>caches := caches s0 @ [cache]\<rparr>" and c0: "c = length (caches s0)"
    by (simp_all add: Orchestration_def)
  from seed_value[OF sd, of k] v obtain p where p: "cache k = Some p" "p < length (promises s0)"
    "promises s0 ! p = \<lparr>origin = Made, outcome = Fulfilled v, follows = None\<rparr>" by auto
  have ca: "cache_of s1 c k = Some p" using p(1) by (simp add: s1 c0 cache_of_def)
  have o1: "outcome_of s1 p = Fulfilled v" using p by (simp add: s1 outcome_of_def)
  then have ne: "outcome_of s1 p \<noteq> Pending" by simp
  from entry_exec[OF i1 w1 e ca ne] obtain new where
    c2: "cache_of s2 c k = Some p" and o2: "outcome_of s2 p = outcome_of s1 p"
    and a2: "attempts s2 = attempts s1 @ new"
    and nw: "\<forall>a\<in>set new. \<not> (fst a = c \<and> fst (snd a) = Some k)" by blast
  from exec_inv[OF i1 w1 e] have g: "grows s1 s2" by simp
  have p1: "p < length (promises s1)" using p(2) by (simp add: s1)
  with g have p2: "p < length (promises s2)" and "origin (promises s2 ! p) = origin (promises s1 ! p)"
    by (auto simp: grows_def)
  with p(3) have og: "origin (promises s2 ! p) = Made" by (simp add: s1)
  have "(c, Some k, f) \<notin> set (attempts s2)" for f
  proof
    assume "(c, Some k, f) \<in> set (attempts s2)"
    with a2 nw have "(c, Some k, f) \<in> set (attempts s1)" by auto
    with fr(3) run_scoped[OF r] c show False by auto
  qed
  with fr ca c2 p2 og o1 o2 show ?thesis by auto
qed

lemma seeded_start_eq:
  "run 10 example_env example_single 0 [] = Some (the (run 10 example_env example_single 0 []))"
  by (rule some_the) code_simp

lemma seeded_scope:
  "Orchestration [(''a'', Num 5)] (the (run 10 example_env example_single 0 [])) = (0, seeded_start)"
proof -
  have "fst (Orchestration [(''a'', Num 5)] (the (run 10 example_env example_single 0 []))) = 0"
    by code_simp
  then show ?thesis unfolding seeded_start_def by (simp add: prod_eq_iff)
qed

lemma seeded_end_eq:
  "exec 10 example_env [Call 0 ''b'', Fire 1, Fire 2, Fire 6, Fire 2, Fire 3, Fire 4] seeded_start
     = Some seeded_end"
  unfolding seeded_end_def by (rule some_the) code_simp

lemma seeded_end_facts:
  "cache_of seeded_end 0 ''b'' = Some 4" "outcome_of seeded_end 4 = Fulfilled (Num 6)"
  "cache_of seeded_start 0 ''a'' = Some 0"
  by code_simp+

theorem seeded_key_never_produced_witness:
  "cache_of seeded_end 0 ''a'' = Some 0 \<and> outcome_of seeded_end 0 = Fulfilled (Num 5) \<and>
   origin (promises seeded_end ! 0) = Made \<and>
   (0, Some ''a'', Wrapped ''a'' 0) \<notin> set (attempts seeded_end) \<and>
   outcome_of seeded_end 4 = Fulfilled (Num 6)"
  using seeded_key_never_produced[OF seeded_start_eq seeded_scope _ seeded_end_eq, of "''a''" "Num 5"]
    seeded_end_facts
  by auto

section \<open>The order of the attempts\<close>

lemma list_all2_path: "list_all2 (\<lambda>p cp. path cp = p \<and> Q p cp) ps cs \<Longrightarrow> map path cs = ps"
  by (induction rule: list_all2_induct) auto

lemma some_pair: "map_option fst x = Some a \<Longrightarrow> x = Some (a, snd (the x))"
  by (cases x) auto


lemma both_start_eq: "run 10 failing_env two_paths 0 [NewScope []] = Some both_start"
  unfolding both_start_def by (rule some_the) code_simp

lemma both_start_facts:
  "0 < length (caches both_start)" "cache_of both_start 0 ''k'' = None"
  "spec both_start ''k'' = Some [\<lparr>dependencies = [], fn = Given 0\<rparr>, \<lparr>dependencies = [], fn = Given 1\<rparr>]"
  by code_simp+

lemma both_called_eq: "resolve (Suc 9) failing_env 0 ''k'' both_start = Some (Inr 4, both_called)"
  unfolding both_called_def by (rule some_pair) code_simp

lemma both_end_eq:
  "exec 10 failing_env [Fire 1, Fire 2, Fire 3, Fire 6, Fire 7, Fire 3, Fire 4] both_called = Some both_end"
  unfolding both_end_def by (rule some_the) code_simp

lemma both_end_rejected: "outcome_of both_end 4 = Rejected (Failure (Num 1))"
  by code_simp


end
